theory Spec2Isabelle
  imports Main "HOL-Library.Sublist"
begin

section \<open>Schema: entity types (Django models) and their fields\<close>

text \<open>
  A Django model class is an object with an identity and a \<^verbatim>\<open>__name__\<close>.  Two model classes
  of different applications may share their \<^verbatim>\<open>__name__\<close>, so the identity is the pair of the
  application label and the name; Python's \<^verbatim>\<open>in\<close> on a list of model classes compares them
  by that identity.
\<close>

datatype model = Model (app_label: string) (model_name: string)

text \<open>
  One entry of \<^verbatim>\<open>parent_model._meta.get_fields()\<close>: the field's \<^verbatim>\<open>name\<close> and its
  \<^verbatim>\<open>related_model\<close>, which is \<^verbatim>\<open>None\<close> for a scalar field.
\<close>

datatype field_relation = Field (name: string) (related_model: "model option")

text \<open>
  The schema is the table that answers \<^verbatim>\<open>_meta.get_fields()\<close> for every model class.  It is
  finite by construction; a model class without an entry has no fields.
\<close>

type_synonym schema = "(model \<times> field_relation list) list"

definition get_fields :: "schema \<Rightarrow> model \<Rightarrow> field_relation list" where
  "get_fields sch m = (case map_of sch m of None \<Rightarrow> [] | Some fs \<Rightarrow> fs)"

definition entity_types :: "schema \<Rightarrow> model set" where
  "entity_types sch = set (map fst sch)"

section \<open>The relation walker: \<^verbatim>\<open>build_possible_fields\<close>\<close>

text \<open>
  \<^verbatim>\<open>
    possible_fields = set()
    for field_relation in parent_model._meta.get_fields():
        if (model := field_relation.related_model) not in excludes:
            field_name = field_relation.name
            possible_fields.add(field_name)
            if model:
                possible_fields.update((
                    f"{field_name}__{field}"
                    for field in cls.build_possible_fields(model, excludes + [parent_model])
                ))
    return possible_fields
  \<close>
  \<^verbatim>\<open>excludes\<close> is a list of model classes, so \<^verbatim>\<open>None not in excludes\<close> holds for every scalar
  field.  The loop body is \<open>walk_field\<close>, with the set computed by the recursive call passed in.
\<close>

definition prefixed :: "string \<Rightarrow> string \<Rightarrow> string" where
  "prefixed field_name field = field_name @ ''__'' @ field"

definition walk_field ::
  "(model \<Rightarrow> string set) \<Rightarrow> model list \<Rightarrow> field_relation \<Rightarrow> string set \<Rightarrow> string set" where
  "walk_field recurse excludes field_relation possible_fields =
     (case related_model field_relation of
        None \<Rightarrow> insert (name field_relation) possible_fields
      | Some model \<Rightarrow>
          if model \<in> set excludes then possible_fields
          else insert (name field_relation) possible_fields
                 \<union> prefixed (name field_relation) ` recurse model)"

lemma walk_field_cong [fundef_cong]:
  assumes "excludes = excludes'" "field_relation = field_relation'"
    and "\<And>m. related_model field_relation' = Some m \<Longrightarrow> m \<notin> set excludes' \<Longrightarrow> f m = g m"
  shows "walk_field f excludes field_relation = walk_field g excludes' field_relation'"
  using assms by (auto simp: walk_field_def fun_eq_iff split: option.splits)

text \<open>
  The measure of a call: twice the number of declared entity types outside \<^verbatim>\<open>excludes\<close>, plus
  one when the root itself is already listed (which happens right after a self-reference).
\<close>

definition walk_measure :: "schema \<Rightarrow> model \<Rightarrow> model list \<Rightarrow> nat" where
  "walk_measure sch parent_model excludes =
     2 * card (entity_types sch - set excludes) + (if parent_model \<in> set excludes then 1 else 0)"

lemma get_fields_entity:
  "field_relation \<in> set (get_fields sch m) \<Longrightarrow> m \<in> entity_types sch"
proof -
  assume "field_relation \<in> set (get_fields sch m)"
  then obtain fs where "map_of sch m = Some fs"
    by (cases "map_of sch m") (auto simp: get_fields_def)
  then have "(m, fs) \<in> set sch" by (rule map_of_SomeD)
  then show ?thesis by (force simp: entity_types_def)
qed

lemma walk_measure_decreases:
  assumes "field_relation \<in> set (get_fields sch parent_model)"
    and "m \<notin> set excludes"
  shows "walk_measure sch m (excludes @ [parent_model]) < walk_measure sch parent_model excludes"
proof (cases "parent_model \<in> set excludes")
  case True
  then have "set (excludes @ [parent_model]) = set excludes" by auto
  with True assms(2) show ?thesis by (simp add: walk_measure_def)
next
  case False
  have fin: "finite (entity_types sch - set excludes)" by (simp add: entity_types_def)
  have mem: "parent_model \<in> entity_types sch - set excludes"
    using get_fields_entity [OF assms(1)] False by simp
  have "entity_types sch - set (excludes @ [parent_model])
          = (entity_types sch - set excludes) - {parent_model}" by auto
  then have "card (entity_types sch - set (excludes @ [parent_model]))
          = card (entity_types sch - set excludes) - 1"
    using fin mem by simp
  moreover have "0 < card (entity_types sch - set excludes)"
    using fin mem by (auto simp: card_gt_0_iff)
  ultimately show ?thesis using False by (simp add: walk_measure_def) arith
qed

function build_possible_fields :: "schema \<Rightarrow> model \<Rightarrow> model list \<Rightarrow> string set" where
  "build_possible_fields sch parent_model excludes =
     fold (walk_field (\<lambda>model. build_possible_fields sch model (excludes @ [parent_model])) excludes)
          (get_fields sch parent_model) {}"
  by pat_completeness auto
termination
  by (relation "measure (\<lambda>(sch, parent_model, excludes). walk_measure sch parent_model excludes)")
     (auto intro: walk_measure_decreases)

declare build_possible_fields.simps [simp del]

subsection \<open>The same recursion with an explicit bound on the call depth\<close>

text \<open>
  \<open>build_possible_fields_fuel\<close> is the recursion above with a budget of nested calls:
  \<open>None\<close> means that the budget ran out before the call returned.
  \<open>recursive_calls\<close> lists the recursive calls that one call makes directly, each with its
  arguments: one per field whose \<^verbatim>\<open>related_model\<close> is a model class outside \<^verbatim>\<open>excludes\<close>.
\<close>

definition walk_field_fuel ::
  "(model \<Rightarrow> string set option) \<Rightarrow> model list \<Rightarrow> field_relation
     \<Rightarrow> string set option \<Rightarrow> string set option" where
  "walk_field_fuel recurse excludes field_relation acc =
     (case acc of
        None \<Rightarrow> None
      | Some possible_fields \<Rightarrow>
          (case related_model field_relation of
             None \<Rightarrow> Some (insert (name field_relation) possible_fields)
           | Some model \<Rightarrow>
               if model \<in> set excludes then Some possible_fields
               else (case recurse model of
                       None \<Rightarrow> None
                     | Some fields \<Rightarrow>
                         Some (insert (name field_relation) possible_fields
                                 \<union> prefixed (name field_relation) ` fields))))"

fun build_possible_fields_fuel :: "nat \<Rightarrow> schema \<Rightarrow> model \<Rightarrow> model list \<Rightarrow> string set option" where
  "build_possible_fields_fuel 0 sch parent_model excludes = None"
| "build_possible_fields_fuel (Suc fuel) sch parent_model excludes =
     fold (walk_field_fuel
             (\<lambda>model. build_possible_fields_fuel fuel sch model (excludes @ [parent_model]))
             excludes)
          (get_fields sch parent_model) (Some {})"

declare build_possible_fields_fuel.simps [simp del]

definition recursive_calls :: "schema \<Rightarrow> model \<Rightarrow> model list \<Rightarrow> (model \<times> model list) list" where
  "recursive_calls sch parent_model excludes =
     map (\<lambda>model. (model, excludes @ [parent_model]))
       (filter (\<lambda>model. model \<notin> set excludes)
          (List.map_filter related_model (get_fields sch parent_model)))"

subsection \<open>Path segments\<close>

text \<open>
  The number of segments of a path is the length of Python's \<^verbatim>\<open>path.split("__")\<close>: one more
  than the number of separators found from the left.  Django rejects a field name that contains
  the separator or ends with an underscore (checks \<^verbatim>\<open>fields.E002\<close> and \<^verbatim>\<open>fields.E001\<close>);
  \<open>valid_field_names\<close> says that every field name of the schema passes these checks, and
  \<open>no_self_reference\<close> that no model class has a relation to itself.
\<close>

fun segment_count :: "string \<Rightarrow> nat" where
  "segment_count [] = 1"
| "segment_count [c] = 1"
| "segment_count (c # d # cs) =
     (if c = CHR ''_'' \<and> d = CHR ''_'' then Suc (segment_count cs) else segment_count (d # cs))"

text \<open>The first segment of a path: Python's \<^verbatim>\<open>path.split("__")[0]\<close>.\<close>

fun first_segment :: "string \<Rightarrow> string" where
  "first_segment [] = []"
| "first_segment [c] = [c]"
| "first_segment (c # d # cs) =
     (if c = CHR ''_'' \<and> d = CHR ''_'' then [] else c # first_segment (d # cs))"

definition valid_field_name :: "string \<Rightarrow> bool" where
  "valid_field_name n \<longleftrightarrow> segment_count n = 1 \<and> (n = [] \<or> last n \<noteq> CHR ''_'')"

definition valid_field_names :: "schema \<Rightarrow> bool" where
  "valid_field_names sch =
     list_all (\<lambda>(m, fs). list_all (\<lambda>fr. valid_field_name (name fr)) fs) sch"

definition no_self_reference :: "schema \<Rightarrow> bool" where
  "no_self_reference sch =
     list_all (\<lambda>(m, fs). list_all (\<lambda>fr. related_model fr \<noteq> Some m) fs) sch"

subsection \<open>Example schemas\<close>

text \<open>Example schemas: a two-model cycle, and a model that refers to itself.\<close>

definition Book :: model where
  "Book = Model ''library'' ''Book''"

definition Author :: model where
  "Author = Model ''library'' ''Author''"

definition library :: schema where
  "library =
     [(Book, [Field ''id'' None, Field ''title'' None, Field ''author'' (Some Author)]),
      (Author, [Field ''id'' None, Field ''name'' None, Field ''books'' (Some Book)])]"

definition Category :: model where
  "Category = Model ''shop'' ''Category''"

definition Product :: model where
  "Product = Model ''shop'' ''Product''"

definition shop :: schema where
  "shop =
     [(Category, [Field ''parent'' (Some Category), Field ''products'' (Some Product)]),
      (Product, [Field ''label'' None])]"

definition tree :: schema where
  "tree = [(Category, [Field ''parent'' (Some Category), Field ''title'' None])]"

section \<open>Request parameters and the query shaping of a view-set\<close>

text \<open>
  \<^verbatim>\<open>request.query_params\<close> is read through \<^verbatim>\<open>params.get(key, default)\<close> and
  \<^verbatim>\<open>params.items()\<close> only; both see one value per key.  The parameters are therefore the list
  of \<^verbatim>\<open>params.items()\<close>: every key of the request once, with its value.
\<close>

type_synonym query_params = "(string \<times> string) list"

definition params_get :: "query_params \<Rightarrow> string \<Rightarrow> string \<Rightarrow> string" where
  "params_get params key fallback = (case map_of params key of None \<Rightarrow> fallback | Some v \<Rightarrow> v)"

text \<open>Python's \<^verbatim>\<open>s.split(sep)\<close> for a one-character separator: \<^verbatim>\<open>"".split(",") == [""]\<close>.\<close>

fun str_split :: "char \<Rightarrow> string \<Rightarrow> string list" where
  "str_split sep [] = [[]]"
| "str_split sep (c # cs) =
     (if c = sep then [] # str_split sep cs
      else (case str_split sep cs of [] \<Rightarrow> [[c]] | w # ws \<Rightarrow> (c # w) # ws))"

text \<open>
  Python's \<^verbatim>\<open>int(s)\<close> on a string, in base ten.  A \<open>char\<close> stands for the code point of the
  same number (the code points below 256).  Whitespace at both ends is stripped: the ASCII
  whitespace and, of the other code points, \<^verbatim>\<open>U+0085\<close> and \<^verbatim>\<open>U+00A0\<close> (the separators
  \<^verbatim>\<open>U+001C\<close> to \<^verbatim>\<open>U+001F\<close> are not stripped).  A sign may come first; the decimal digits, which
  are \<^verbatim>\<open>0\<close> to \<^verbatim>\<open>9\<close> only, may be grouped by single underscores; a string with more digits than
  \<^verbatim>\<open>sys.int_info.default_max_str_digits\<close> is refused.  \<open>None\<close> stands for the \<^verbatim>\<open>ValueError\<close>
  that \<^verbatim>\<open>int\<close> raises.
\<close>

definition is_space :: "char \<Rightarrow> bool" where
  "is_space c \<longleftrightarrow>
     c \<in> set [CHR 0x09, CHR 0x0A, CHR 0x0B, CHR 0x0C, CHR 0x0D, CHR 0x20, CHR 0x85, CHR 0xA0]"

definition strip :: "string \<Rightarrow> string" where
  "strip s = rev (dropWhile is_space (rev (dropWhile is_space s)))"

definition digit_of :: "char \<Rightarrow> nat option" where
  "digit_of c =
     (let n = (of_char c :: nat) in if 48 \<le> n \<and> n \<le> 57 then Some (n - 48) else None)"

definition max_str_digits :: nat where
  "max_str_digits = 4300"

fun digits_value :: "nat \<Rightarrow> string \<Rightarrow> nat option" where
  "digits_value acc [] = Some acc"
| "digits_value acc [c] =
     (case digit_of c of None \<Rightarrow> None | Some v \<Rightarrow> Some (10 * acc + v))"
| "digits_value acc (c # d # cs) =
     (if c = CHR ''_''
      then (case digit_of d of None \<Rightarrow> None | Some v \<Rightarrow> digits_value (10 * acc + v) cs)
      else (case digit_of c of None \<Rightarrow> None | Some v \<Rightarrow> digits_value (10 * acc + v) (d # cs)))"

definition unsigned_int :: "string \<Rightarrow> nat option" where
  "unsigned_int s =
     (case s of
        [] \<Rightarrow> None
      | c # cs \<Rightarrow>
          (case digit_of c of
             None \<Rightarrow> None
           | Some v \<Rightarrow>
               if max_str_digits < length (filter (\<lambda>c. digit_of c \<noteq> None) s) then None
               else digits_value v cs))"

definition py_int :: "string \<Rightarrow> int option" where
  "py_int s =
     (case strip s of
        [] \<Rightarrow> None
      | c # cs \<Rightarrow>
          if c = CHR ''-'' then map_option (\<lambda>n. - int n) (unsigned_int cs)
          else if c = CHR ''+'' then map_option int (unsigned_int cs)
          else map_option int (unsigned_int (c # cs)))"

text \<open>
  Python's \<^verbatim>\<open>str(d)\<close> for an integer: its decimal digits, after a minus sign when it is
  negative.
\<close>

definition digit_char :: "nat \<Rightarrow> char" where
  "digit_char k = char_of (48 + k)"

fun nat_str :: "nat \<Rightarrow> string" where
  "nat_str n = (if n < 10 then [digit_char n] else nat_str (n div 10) @ [digit_char (n mod 10)])"

declare nat_str.simps [simp del]

definition py_str :: "int \<Rightarrow> string" where
  "py_str d = (if d < 0 then CHR ''-'' # nat_str (nat (- d)) else nat_str (nat d))"

text \<open>
  The exceptions that leave \<^verbatim>\<open>views.py\<close>.  \<^verbatim>\<open>ValueError\<close> and \<^verbatim>\<open>KeyError\<close> are Python's
  built-in exceptions, raised by \<^verbatim>\<open>int\<close> and by a dictionary subscription.  \<open>APIException\<close>
  is an exception of the REST framework with its HTTP status; the framework answers it with that
  status, and only such an exception with a status from 400 to 499 reaches the caller as a
  client-input error.  \<^verbatim>\<open>views.py\<close> raises none and converts no built-in exception into one.
\<close>

datatype error = ValueError | KeyError | APIException nat

fun client_input_error :: "error \<Rightarrow> bool" where
  "client_input_error (APIException code) \<longleftrightarrow> 400 \<le> code \<and> code < 500"
| "client_input_error _ \<longleftrightarrow> False"

text \<open>
  What the view-set reads of its serializer class (the class itself is built elsewhere):
  \<^verbatim>\<open>serializer_class._all_related_paths\<close> and \<^verbatim>\<open>serializer_class.Meta.original_depth\<close>.
\<close>

record serializer_class =
  all_related_paths :: "string set"
  original_depth :: int

text \<open>
  \<^verbatim>\<open>int(params.get("depth", serializer_class.Meta.original_depth))\<close>: the default is an integer
  already, the parameter is a string that \<^verbatim>\<open>int\<close> may refuse.
\<close>

definition request_depth :: "serializer_class \<Rightarrow> query_params \<Rightarrow> error + int" where
  "request_depth serializer params =
     (case map_of params ''depth'' of
        None \<Rightarrow> Inr (original_depth serializer)
      | Some s \<Rightarrow> (case py_int s of None \<Rightarrow> Inl ValueError | Some d \<Rightarrow> Inr d))"

text \<open>
  The set comprehension that \<^verbatim>\<open>get_serializer\<close> and \<^verbatim>\<open>get_queryset\<close> both evaluate:
  \<^verbatim>\<open>
    excludes = set(params.get("exclude", "").split(","))
    { path for path in serializer_class._all_related_paths
      if not any(path.startswith(exclude) for exclude in excludes if exclude) }
  \<close>
\<close>

definition request_excludes :: "query_params \<Rightarrow> string set" where
  "request_excludes params = set (str_split CHR '','' (params_get params ''exclude'' ''''))"

definition request_relations_paths :: "serializer_class \<Rightarrow> query_params \<Rightarrow> string set" where
  "request_relations_paths serializer params =
     {path \<in> all_related_paths serializer.
        \<not> (\<exists>exclude \<in> request_excludes params. exclude \<noteq> [] \<and> prefix exclude path)}"

text \<open>
  \<^verbatim>\<open>get_serializer\<close> returns \<^verbatim>\<open>serializer_class(*args, depth=..., relations_paths=..., **kwargs)\<close>
  when the view has a request, and \<^verbatim>\<open>super().get_serializer(*args, **kwargs)\<close> otherwise.  The
  result is recorded by the two keyword arguments the method adds (\<open>None\<close>: not passed).
\<close>

record serializer_call =
  depth :: "int option"
  relations_paths :: "string set option"

definition get_serializer :: "serializer_class \<Rightarrow> query_params option \<Rightarrow> error + serializer_call" where
  "get_serializer serializer request =
     (case request of
        None \<Rightarrow> Inr \<lparr>depth = None, relations_paths = None\<rparr>
      | Some params \<Rightarrow>
          (case request_depth serializer params of
             Inl e \<Rightarrow> Inl e
           | Inr d \<Rightarrow>
               Inr \<lparr>depth = Some d,
                    relations_paths = Some (request_relations_paths serializer params)\<rparr>))"

text \<open>
  The queryset that \<^verbatim>\<open>get_queryset\<close> returns is the view's base queryset with operations of the
  query builder applied, in this order: \<^verbatim>\<open>optimize_queryset\<close> always, \<^verbatim>\<open>filter\<close> when
  \<^verbatim>\<open>filter_by\<close> is not empty, \<^verbatim>\<open>order_by\<close> when the list is not empty.
  \<^verbatim>\<open>
    if filter_by := {field: value for field, value in params.items()
                     if field in self._possible_fields}:
        queryset = queryset.filter(**filter_by)
    if order_by := [field for field in params.get("order_by", "").split(",")
                    if field in self._possible_fields]:
        queryset = queryset.order_by(*order_by)
  \<close>
\<close>

datatype queryset_op =
    Optimize "string set" int
  | Filter "(string \<times> string) list"
  | OrderBy "string list"

definition get_queryset ::
  "string set \<Rightarrow> serializer_class \<Rightarrow> query_params \<Rightarrow> error + queryset_op list" where
  "get_queryset possible_fields serializer params =
     (case request_depth serializer params of
        Inl e \<Rightarrow> Inl e
      | Inr d \<Rightarrow>
          (let queryset = [Optimize (request_relations_paths serializer params) d];
               filter_by = filter (\<lambda>(field, value). field \<in> possible_fields) params;
               queryset = (if filter_by \<noteq> [] then queryset @ [Filter filter_by] else queryset);
               order_by = filter (\<lambda>field. field \<in> possible_fields)
                            (str_split CHR '','' (params_get params ''order_by'' ''''));
               queryset = (if order_by \<noteq> [] then queryset @ [OrderBy order_by] else queryset)
           in Inr queryset))"

text \<open>What a queryset applies: its eager-loaded paths and depth, its filters, its ordering.\<close>

fun optimized :: "queryset_op list \<Rightarrow> (string set \<times> int) list" where
  "optimized [] = []"
| "optimized (Optimize paths d # ops) = (paths, d) # optimized ops"
| "optimized (_ # ops) = optimized ops"

fun applied_filters :: "queryset_op list \<Rightarrow> (string \<times> string) list" where
  "applied_filters [] = []"
| "applied_filters (Filter filter_by # ops) = filter_by @ applied_filters ops"
| "applied_filters (_ # ops) = applied_filters ops"

fun applied_order :: "queryset_op list \<Rightarrow> string list" where
  "applied_order [] = []"
| "applied_order (OrderBy order_by # ops) = order_by @ applied_order ops"
| "applied_order (_ # ops) = applied_order ops"

text \<open>
  The match the specification describes for \<^verbatim>\<open>exclude\<close>: an entry matches a path on whole
  segments when it is the path itself or is followed in it by the separator.
\<close>

definition spec_whole_segment_prefix :: "string \<Rightarrow> string \<Rightarrow> bool" where
  "spec_whole_segment_prefix exclude path \<longleftrightarrow> path = exclude \<or> prefix (exclude @ ''__'') path"

text \<open>
  The active paths as the specification describes them: the paths that no non-empty entry of
  \<^verbatim>\<open>exclude\<close> matches on whole segments.
\<close>

definition spec_relations_paths :: "serializer_class \<Rightarrow> query_params \<Rightarrow> string set" where
  "spec_relations_paths serializer params =
     {path \<in> all_related_paths serializer.
        \<not> (\<exists>exclude \<in> request_excludes params.
               exclude \<noteq> [] \<and> spec_whole_segment_prefix exclude path)}"

subsection \<open>Example requests\<close>

definition blog_serializer :: serializer_class where
  "blog_serializer =
     \<lparr>all_related_paths = {''author'', ''author__profile'', ''author_profile'', ''comments'',
                            ''comments__author''},
      original_depth = 1\<rparr>"

definition book_request :: query_params where
  "book_request =
     [(''depth'', ''2''), (''author__name'', ''Ann''), (''nonexistent_field'', ''1''),
      (''order_by'', ''title,nonexistent_field,id'')]"

definition long_digits :: string where
  "long_digits = replicate 4301 CHR ''1''"

section \<open>The registry of view-set classes\<close>

text \<open>
  A view-set class is a class object: \<open>class_id\<close> is its identity, the other fields are the
  class attributes that the code reads (\<^verbatim>\<open>use_case\<close>, \<^verbatim>\<open>queryset.model\<close>, \<^verbatim>\<open>serializer_class\<close>,
  \<^verbatim>\<open>_possible_fields\<close>); \<open>None\<close> stands for an attribute that is \<^verbatim>\<open>None\<close> or not set.  The
  assignments to \<^verbatim>\<open>__name__\<close> and \<^verbatim>\<open>__doc__\<close> are left out: nothing reads them.
\<close>

record view_set_class =
  class_id :: nat
  use_case :: string
  queryset_model :: "model option"
  serializer_class_of :: "serializer_class option"
  possible_fields_of :: "string set option"

text \<open>
  The state: the dictionary \<^verbatim>\<open>ReadOnlyDeepViewSet._viewsets\<close>, shared by all subclasses, and the
  identity that the next class object gets.
\<close>

record registry =
  viewsets :: "string \<rightharpoonup> view_set_class"
  next_class_id :: nat

definition view_set_name :: "string \<Rightarrow> model \<Rightarrow> string" where
  "view_set_name uc m = uc @ model_name m @ ''ViewSet''"

text \<open>
  \<^verbatim>\<open>
    def __init_subclass__(cls, **kwargs):
        super().__init_subclass__(**kwargs)
        if hasattr(cls, 'queryset') and cls.queryset is not None:
            model = cls.queryset.model
            cls._viewsets[cls.use_case + model.__name__ + "ViewSet"] = cls
            cls._possible_fields = cls.build_possible_fields(model, [])
            if cls.serializer_class is None:
                cls.serializer_class = DeepSerializer.get_serializer_class(model, use_case=cls.use_case)
  \<close>
  The dictionary holds a reference to the class object, so the entry shows the two attributes
  assigned after it was stored.  \<^verbatim>\<open>DeepSerializer.get_serializer_class\<close> is the parameter
  \<open>deep_serializer\<close>.
\<close>

definition init_subclass ::
  "schema \<Rightarrow> (model \<Rightarrow> string \<Rightarrow> serializer_class) \<Rightarrow> view_set_class \<Rightarrow> registry
     \<Rightarrow> view_set_class \<times> registry" where
  "init_subclass sch deep_serializer cls st =
     (case queryset_model cls of
        None \<Rightarrow> (cls, st)
      | Some model \<Rightarrow>
          (let cls = cls\<lparr>possible_fields_of := Some (build_possible_fields sch model [])\<rparr>;
               cls = (if serializer_class_of cls = None
                      then cls\<lparr>serializer_class_of := Some (deep_serializer model (use_case cls))\<rparr>
                      else cls)
           in (cls, st\<lparr>viewsets := (viewsets st)(view_set_name (use_case cls) model \<mapsto> cls)\<rparr>)))"

text \<open>
  A class statement \<^verbatim>\<open>class C(base): ...\<close> creates a new class object: an attribute is the one
  of the body when the body assigns it, and the one of the base class otherwise.  Python then
  calls \<^verbatim>\<open>__init_subclass__\<close> on the new class.
\<close>

record class_body =
  body_use_case :: "string option"
  body_queryset :: "model option"
  body_serializer_class :: "serializer_class option"

definition class_statement ::
  "schema \<Rightarrow> (model \<Rightarrow> string \<Rightarrow> serializer_class) \<Rightarrow> view_set_class \<Rightarrow> class_body \<Rightarrow> registry
     \<Rightarrow> view_set_class \<times> registry" where
  "class_statement sch deep_serializer base body st =
     init_subclass sch deep_serializer
       \<lparr>class_id = next_class_id st,
        use_case = (case body_use_case body of None \<Rightarrow> use_case base | Some uc \<Rightarrow> uc),
        queryset_model = (case body_queryset body of None \<Rightarrow> queryset_model base | Some m \<Rightarrow> Some m),
        serializer_class_of =
          (case body_serializer_class body of
             None \<Rightarrow> serializer_class_of base
           | Some s \<Rightarrow> Some s),
        possible_fields_of = possible_fields_of base\<rparr>
       (st\<lparr>next_class_id := Suc (next_class_id st)\<rparr>)"

text \<open>
  \<^verbatim>\<open>
    view_set_name = use_case + model.__name__ + "ViewSet"
    if view_set_name not in cls._viewsets:
        _model, _use_case = model, use_case
        class CommonViewSet(cls):
            use_case = _use_case
            queryset = _model.objects
        ...
    return cls._viewsets[view_set_name]
  \<close>
  The subscription raises \<^verbatim>\<open>KeyError\<close> when the key is missing.
\<close>

definition get_view_set_class ::
  "schema \<Rightarrow> (model \<Rightarrow> string \<Rightarrow> serializer_class) \<Rightarrow> view_set_class \<Rightarrow> model \<Rightarrow> string
     \<Rightarrow> registry \<Rightarrow> (error + view_set_class) \<times> registry" where
  "get_view_set_class sch deep_serializer cls model uc st =
     (let st = (if view_set_name uc model \<notin> dom (viewsets st)
                then snd (class_statement sch deep_serializer cls
                            \<lparr>body_use_case = Some uc, body_queryset = Some model,
                             body_serializer_class = None\<rparr> st)
                else st)
      in (case viewsets st (view_set_name uc model) of
            None \<Rightarrow> Inl KeyError
          | Some view_set \<Rightarrow> Inr view_set,
          st))"

text \<open>A sequence of lookups, each \<^verbatim>\<open>cls.get_view_set_class(model, use_case)\<close>, run in order.\<close>

fun lookups ::
  "schema \<Rightarrow> (model \<Rightarrow> string \<Rightarrow> serializer_class) \<Rightarrow> (view_set_class \<times> model \<times> string) list
     \<Rightarrow> registry \<Rightarrow> registry" where
  "lookups sch deep_serializer [] st = st"
| "lookups sch deep_serializer ((cls, model, uc) # requests) st =
     lookups sch deep_serializer requests
       (snd (get_view_set_class sch deep_serializer cls model uc st))"

definition request_key :: "view_set_class \<times> model \<times> string \<Rightarrow> string" where
  "request_key request = (case request of (cls, model, uc) \<Rightarrow> view_set_name uc model)"

text \<open>
  The classes of the module itself.  Their own class statements register nothing: the
  \<^verbatim>\<open>queryset\<close> they inherit is \<^verbatim>\<open>None\<close>.
\<close>

definition ReadOnlyDeepViewSet :: view_set_class where
  "ReadOnlyDeepViewSet =
     \<lparr>class_id = 0, use_case = ''ReadOnly'', queryset_model = None,
      serializer_class_of = None, possible_fields_of = None\<rparr>"

definition DeepViewSet :: view_set_class where
  "DeepViewSet = ReadOnlyDeepViewSet\<lparr>class_id := 1, use_case := ''''\<rparr>"

definition DeepCreateViewSet :: view_set_class where
  "DeepCreateViewSet = DeepViewSet\<lparr>class_id := 2\<rparr>"

definition initial_registry :: registry where
  "initial_registry = \<lparr>viewsets = Map.empty, next_class_id = 3\<rparr>"

subsection \<open>Example registrations\<close>

definition example_serializer :: "model \<Rightarrow> string \<Rightarrow> serializer_class" where
  "example_serializer m uc = \<lparr>all_related_paths = {''author''}, original_depth = 0\<rparr>"

definition book_body :: class_body where
  "book_body = \<lparr>body_use_case = None, body_queryset = Some Book, body_serializer_class = None\<rparr>"






definition generated_book :: view_set_class where
  "generated_book =
     \<lparr>class_id = 3, use_case = '''', queryset_model = Some Book,
      serializer_class_of = Some (example_serializer Book ''''),
      possible_fields_of = Some (build_possible_fields library Book [])\<rparr>"

definition registry_generated :: registry where
  "registry_generated = \<lparr>viewsets = [''BookViewSet'' \<mapsto> generated_book], next_class_id = 4\<rparr>"

definition ManualBookViewSet :: view_set_class where
  "ManualBookViewSet = generated_book\<lparr>class_id := 4\<rparr>"

definition registry_manual :: registry where
  "registry_manual = \<lparr>viewsets = [''BookViewSet'' \<mapsto> ManualBookViewSet], next_class_id = 5\<rparr>"

section \<open>Nested writes: the action \<^verbatim>\<open>deep_create\<close>\<close>

text \<open>
  Modelled from the spec: the write graph, storage and the results of the nested write engine,
  none of which is among the source files.  A node of a write graph has an entity type, an
  optional primary key, its scalar field values, and child write graphs keyed by relation name,
  each with the cardinality of its relation.
\<close>

datatype cardinality = ToOne | ToMany

datatype write_graph =
  WriteGraph (node_type: model) (node_pk: "nat option") (node_scalars: "(string \<times> string) list")
    (node_children: "(string \<times> cardinality \<times> write_graph) list")

text \<open>
  Storage holds rows by primary key; a row has its entity type, its scalar values and its
  references to other rows by relation name.  \<open>next_pk\<close> is the key the next created row gets.
\<close>

datatype entity_row =
  EntityRow (row_type: model) (row_fields: "(string \<times> string) list") (row_refs: "(string \<times> nat) list")

record storage =
  rows :: "(nat \<times> entity_row) list"
  next_pk :: nat

datatype persisted_entity =
  PersistedEntity (entity_pk: nat) (entity_type: model) (entity_fields: "(string \<times> string) list")
    (entity_children: "(string \<times> persisted_entity) list")

datatype validation_error = ValidationError (error_path: "string list") (error_fields: "string list")

text \<open>
  Modelled from the spec: the storage operation ``insert/update-or-create'' of the transactional
  write capability, which is not among the source files.  A node with the primary key of an
  existing row updates that row; any other node creates a row.
\<close>

definition persist ::
  "model \<Rightarrow> nat option \<Rightarrow> (string \<times> string) list \<Rightarrow> (string \<times> nat) list \<Rightarrow> storage
     \<Rightarrow> nat \<times> storage" where
  "persist t pk vals refs st =
     (case pk of
        None \<Rightarrow>
          (next_pk st,
           st\<lparr>rows := rows st @ [(next_pk st, EntityRow t vals refs)],
              next_pk := Suc (next_pk st)\<rparr>)
      | Some i \<Rightarrow>
          if i \<in> fst ` set (rows st)
          then (i, st\<lparr>rows := map (\<lambda>(j, row). if j = i then (j, EntityRow t vals refs)
                                              else (j, row)) (rows st)\<rparr>)
          else (i, st\<lparr>rows := rows st @ [(i, EntityRow t vals refs)],
                     next_pk := max (next_pk st) (Suc i)\<rparr>))"

text \<open>
  Modelled from the spec: ``associate each child to the parent'', the last step for the
  children of a to-many relation.  The parent's row gets a reference to every such child.
\<close>

definition associate :: "nat \<Rightarrow> (string \<times> nat) list \<Rightarrow> storage \<Rightarrow> storage" where
  "associate parent refs st =
     st\<lparr>rows := map (\<lambda>(j, row). if j = parent
                                  then (j, EntityRow (row_type row) (row_fields row)
                                             (row_refs row @ refs))
                                  else (j, row)) (rows st)\<rparr>"

text \<open>
  Modelled from the spec: the recursive descent of the nested write engine (section 4.4 of the
  specification; \<^verbatim>\<open>DeepSerializer.deep_update_or_create\<close> is not among the source files).
  \<open>validate\<close> is the external validator: the names of the fields of a node that fail validation.
  \<open>policy\<close> is the partial-acceptance policy the caller specifies for invalid nodes when
  \<open>raise_on_invalid\<close> is off.  A node is validated first; with \<open>raise_on_invalid\<close> an invalid node
  fails at once with its path and its failing fields.  The children of to-one relations are
  written first and their keys wired into the parent, then the parent is persisted, then the
  children of to-many relations are written with the parent's key injected and associated.
  The descent works on the storage it is given and returns the storage it has reached.
\<close>

fun upsert ::
  "(model \<Rightarrow> (string \<times> string) list \<Rightarrow> string list)
     \<Rightarrow> (model \<Rightarrow> (string \<times> string) list \<Rightarrow> (string \<times> string) list)
     \<Rightarrow> bool \<Rightarrow> string list \<Rightarrow> (string \<times> nat) list \<Rightarrow> write_graph \<Rightarrow> storage
     \<Rightarrow> validation_error + persisted_entity \<times> storage"
and upsert_children ::
  "(model \<Rightarrow> (string \<times> string) list \<Rightarrow> string list)
     \<Rightarrow> (model \<Rightarrow> (string \<times> string) list \<Rightarrow> (string \<times> string) list)
     \<Rightarrow> bool \<Rightarrow> string list \<Rightarrow> cardinality \<Rightarrow> nat option
     \<Rightarrow> (string \<times> cardinality \<times> write_graph) list \<Rightarrow> storage
     \<Rightarrow> validation_error + (string \<times> persisted_entity) list \<times> storage" where
  "upsert validate policy raise_on_invalid path injected (WriteGraph t pk scalars children) st =
     (if validate t scalars \<noteq> [] \<and> raise_on_invalid
      then Inl (ValidationError path (validate t scalars))
      else
        (case upsert_children validate policy raise_on_invalid path ToOne None children st of
           Inl e \<Rightarrow> Inl e
         | Inr (ones, st1) \<Rightarrow>
             (case persist t pk
                     (if validate t scalars \<noteq> [] then policy t scalars else scalars)
                     (injected @ map (\<lambda>(n, p). (n, entity_pk p)) ones) st1 of
                (i, st2) \<Rightarrow>
                  (case upsert_children validate policy raise_on_invalid path ToMany (Some i)
                          children st2 of
                     Inl e \<Rightarrow> Inl e
                   | Inr (many, st3) \<Rightarrow>
                       Inr (PersistedEntity i t
                              (if validate t scalars \<noteq> [] then policy t scalars else scalars)
                              (ones @ many),
                            associate i (map (\<lambda>(n, p). (n, entity_pk p)) many) st3)))))"
| "upsert_children validate policy raise_on_invalid path phase parent [] st = Inr ([], st)"
| "upsert_children validate policy raise_on_invalid path phase parent ((n, kind, child) # rest) st =
     (if kind \<noteq> phase
      then upsert_children validate policy raise_on_invalid path phase parent rest st
      else
        (case upsert validate policy raise_on_invalid (path @ [n])
                (case parent of None \<Rightarrow> [] | Some i \<Rightarrow> [(n, i)]) child st of
           Inl e \<Rightarrow> Inl e
         | Inr (p, st1) \<Rightarrow>
             (case upsert_children validate policy raise_on_invalid path phase parent rest st1 of
                Inl e \<Rightarrow> Inl e
              | Inr (ps, st2) \<Rightarrow> Inr ((n, p) # ps, st2))))"

text \<open>
  Modelled from the spec: ``the whole operation is one atomic transaction: any validation
  failure at any node aborts the entire write, leaving storage unchanged''.  The descent runs
  inside the transaction; a failure rolls back to the storage the operation started from.
  The root node is written as a node of the entity type the caller names.
\<close>

definition with_root_type :: "model \<Rightarrow> write_graph \<Rightarrow> write_graph" where
  "with_root_type root_type payload =
     WriteGraph root_type (node_pk payload) (node_scalars payload) (node_children payload)"

definition deep_update_or_create ::
  "(model \<Rightarrow> (string \<times> string) list \<Rightarrow> string list)
     \<Rightarrow> (model \<Rightarrow> (string \<times> string) list \<Rightarrow> (string \<times> string) list)
     \<Rightarrow> model \<Rightarrow> write_graph \<Rightarrow> bool \<Rightarrow> storage
     \<Rightarrow> (validation_error + persisted_entity) \<times> storage" where
  "deep_update_or_create validate policy root_type payload raise_exception st =
     (case upsert validate policy raise_exception [] [] (with_root_type root_type payload) st of
        Inl e \<Rightarrow> (Inl e, st)
      | Inr (entity, st') \<Rightarrow> (Inr entity, st'))"

text \<open>
  \<^verbatim>\<open>
    @action(detail=False, methods=['post'])
    def deep_create(self, request):
        return Response(
            self.get_serializer().deep_update_or_create(self.queryset.model, request.data,
                                                        raise_exception=True),
            status=status.HTTP_201_CREATED
        )
  \<close>
  The action first builds the serializer from the request's parameters, which fails on an
  unreadable \<^verbatim>\<open>depth\<close>, and then writes \<^verbatim>\<open>request.data\<close> as an entity of
  \<^verbatim>\<open>self.queryset.model\<close> with \<^verbatim>\<open>raise_exception=True\<close>.
\<close>

datatype deep_create_error = RequestError error | WriteError validation_error

datatype response = Response persisted_entity nat

definition deep_create ::
  "serializer_class \<Rightarrow> query_params
     \<Rightarrow> (model \<Rightarrow> (string \<times> string) list \<Rightarrow> string list)
     \<Rightarrow> (model \<Rightarrow> (string \<times> string) list \<Rightarrow> (string \<times> string) list)
     \<Rightarrow> model \<Rightarrow> write_graph \<Rightarrow> storage \<Rightarrow> (deep_create_error + response) \<times> storage" where
  "deep_create serializer params validate policy root_model data st =
     (case get_serializer serializer (Some params) of
        Inl e \<Rightarrow> (Inl (RequestError e), st)
      | Inr call \<Rightarrow>
          (case deep_update_or_create validate policy root_model data True st of
             (Inl e, st') \<Rightarrow> (Inl (WriteError e), st')
           | (Inr entity, st') \<Rightarrow> (Inr (Response entity 201), st')))"

text \<open>
  Modelled from the spec: the nodes of a write graph that fail field validation, each with its
  path within the payload and its failing fields.
\<close>

fun invalid_nodes ::
  "(model \<Rightarrow> (string \<times> string) list \<Rightarrow> string list) \<Rightarrow> string list \<Rightarrow> write_graph
     \<Rightarrow> (string list \<times> string list) list"
and invalid_children ::
  "(model \<Rightarrow> (string \<times> string) list \<Rightarrow> string list) \<Rightarrow> string list
     \<Rightarrow> (string \<times> cardinality \<times> write_graph) list \<Rightarrow> (string list \<times> string list) list" where
  "invalid_nodes validate path (WriteGraph t pk scalars children) =
     (if validate t scalars \<noteq> [] then [(path, validate t scalars)] else [])
       @ invalid_children validate path children"
| "invalid_children validate path [] = []"
| "invalid_children validate path ((n, kind, child) # rest) =
     invalid_nodes validate (path @ [n]) child @ invalid_children validate path rest"

subsection \<open>Example write\<close>

definition Review :: model where
  "Review = Model ''library'' ''Review''"

definition non_empty :: "model \<Rightarrow> (string \<times> string) list \<Rightarrow> string list" where
  "non_empty t scalars = map fst (filter (\<lambda>(field, v). v = []) scalars)"

definition keep_valid :: "model \<Rightarrow> (string \<times> string) list \<Rightarrow> (string \<times> string) list" where
  "keep_valid t scalars = filter (\<lambda>(field, v). v \<noteq> []) scalars"

definition book_payload :: write_graph where
  "book_payload =
     WriteGraph Book None [(''title'', ''Emma'')]
       [(''author'', ToOne, WriteGraph Author None [(''name'', ''Jane'')] []),
        (''reviews'', ToMany, WriteGraph Review None [(''rating'', '''')] [])]"

definition good_payload :: write_graph where
  "good_payload =
     WriteGraph Book None [(''title'', ''Emma'')]
       [(''author'', ToOne, WriteGraph Author None [(''name'', ''Jane'')] []),
        (''reviews'', ToMany, WriteGraph Review None [(''rating'', ''5'')] [])]"

definition empty_storage :: storage where
  "empty_storage = \<lparr>rows = [], next_pk = 1\<rparr>"

section \<open>Facts about the walker\<close>

lemma walk_field_acc:
  "walk_field r ex fr acc = acc \<union> walk_field r ex fr {}"
  by (auto simp: walk_field_def split: option.splits)

lemma fold_walk_field:
  "fold (walk_field r ex) fs acc = acc \<union> (\<Union>fr \<in> set fs. walk_field r ex fr {})"
proof (induction fs arbitrary: acc)
  case Nil
  show ?case by simp
next
  case (Cons fr fs)
  show ?case
    by (simp add: Cons.IH [of "walk_field r ex fr acc"]) (subst walk_field_acc, blast)
qed

lemma build_possible_fields_union:
  "build_possible_fields sch parent_model excludes =
     (\<Union>fr \<in> set (get_fields sch parent_model).
        walk_field (\<lambda>model. build_possible_fields sch model (excludes @ [parent_model]))
          excludes fr {})"
  by (subst build_possible_fields.simps) (simp add: fold_walk_field)

lemma library_fields:
  "get_fields library Book = [Field ''id'' None, Field ''title'' None, Field ''author'' (Some Author)]"
  "get_fields library Author = [Field ''id'' None, Field ''name'' None, Field ''books'' (Some Book)]"
  "Book \<noteq> Author" "Author \<noteq> Book"
  by (simp_all add: library_def get_fields_def Book_def Author_def)

lemma library_Author_Book:
  "build_possible_fields library Author [Book] = {''id'', ''name''}"
  by (subst build_possible_fields.simps) (auto simp: library_fields walk_field_def)

lemma library_Book:
  "build_possible_fields library Book [] =
     {''id'', ''title'', ''author'', ''author__id'', ''author__name''}"
  by (subst build_possible_fields.simps)
     (auto simp: library_fields library_Author_Book walk_field_def prefixed_def)

lemma walk_field_empty_elem:
  "p \<in> walk_field r ex fr {} \<longleftrightarrow>
     (case related_model fr of
        None \<Rightarrow> p = name fr
      | Some m \<Rightarrow> m \<notin> set ex \<and> (p = name fr \<or> (\<exists>f \<in> r m. p = prefixed (name fr) f)))"
  by (auto simp: walk_field_def split: option.splits)

lemma get_fields_in_schema:
  assumes "fr \<in> set (get_fields sch m)"
  shows "\<exists>fs. (m, fs) \<in> set sch \<and> fr \<in> set fs"
proof -
  from assms obtain fs where fs: "map_of sch m = Some fs" "fr \<in> set fs"
    by (cases "map_of sch m") (auto simp: get_fields_def)
  from fs(1) have "(m, fs) \<in> set sch" by (rule map_of_SomeD)
  with fs(2) show ?thesis by blast
qed

lemma valid_field_namesD:
  "valid_field_names sch \<Longrightarrow> fr \<in> set (get_fields sch m) \<Longrightarrow> valid_field_name (name fr)"
  by (auto simp: valid_field_names_def list_all_iff dest!: get_fields_in_schema)

lemma no_self_referenceD:
  "no_self_reference sch \<Longrightarrow> fr \<in> set (get_fields sch m) \<Longrightarrow> related_model fr \<noteq> Some m"
  by (auto simp: no_self_reference_def list_all_iff dest!: get_fields_in_schema)

lemma walk_measure_pos:
  assumes "fr \<in> set (get_fields sch parent_model)"
  shows "0 < walk_measure sch parent_model excludes"
proof (cases "parent_model \<in> set excludes")
  case True
  then show ?thesis by (simp add: walk_measure_def)
next
  case False
  with get_fields_entity [OF assms] have "parent_model \<in> entity_types sch - set excludes" by simp
  moreover have "finite (entity_types sch - set excludes)" by (simp add: entity_types_def)
  ultimately have "0 < card (entity_types sch - set excludes)" by (auto simp: card_gt_0_iff)
  then show ?thesis by (simp add: walk_measure_def)
qed

lemma build_possible_fields_cases:
  assumes "p \<in> build_possible_fields sch parent_model excludes"
  obtains fr where "fr \<in> set (get_fields sch parent_model)" "p = name fr"
  | fr m f where "fr \<in> set (get_fields sch parent_model)" "related_model fr = Some m"
      "m \<notin> set excludes" "f \<in> build_possible_fields sch m (excludes @ [parent_model])"
      "p = prefixed (name fr) f"
proof -
  from assms obtain fr where fr: "fr \<in> set (get_fields sch parent_model)"
    and mem: "p \<in> walk_field (\<lambda>model. build_possible_fields sch model (excludes @ [parent_model])) excludes fr {}"
    by (subst (asm) build_possible_fields_union) blast
  from mem fr that show ?thesis
    by (auto simp: walk_field_empty_elem split: option.splits)
qed

lemma shop_fields:
  "get_fields shop Category = [Field ''parent'' (Some Category), Field ''products'' (Some Product)]"
  "get_fields shop Product = [Field ''label'' None]"
  "Category \<noteq> Product" "Product \<noteq> Category"
  by (simp_all add: shop_def get_fields_def Category_def Product_def)

lemma shop_Product:
  "build_possible_fields shop Product [Category] = {''label''}"
  "build_possible_fields shop Product [Category, Category] = {''label''}"
  by (subst build_possible_fields.simps, simp add: shop_fields walk_field_def)+

lemma shop_Category_Category:
  "build_possible_fields shop Category [Category] = {''products'', ''products__label''}"
  by (subst build_possible_fields.simps)
     (auto simp: shop_fields shop_Product walk_field_def prefixed_def)

lemma shop_Category:
  "build_possible_fields shop Category [] =
     {''parent'', ''parent__products'', ''parent__products__label'',
      ''products'', ''products__label''}"
  by (subst build_possible_fields.simps)
     (auto simp: shop_fields shop_Product shop_Category_Category walk_field_def prefixed_def)

lemma tree_fields:
  "get_fields tree Category = [Field ''parent'' (Some Category), Field ''title'' None]"
  by (simp add: tree_def get_fields_def)

lemma tree_Category_Category:
  "build_possible_fields tree Category [Category] = {''title''}"
  by (subst build_possible_fields.simps) (auto simp: tree_fields walk_field_def)

lemma tree_Category:
  "build_possible_fields tree Category [] = {''parent'', ''title'', ''parent__title''}"
  by (subst build_possible_fields.simps)
     (auto simp: tree_fields tree_Category_Category walk_field_def prefixed_def)

lemma tree_types: "card (entity_types tree) = 1"
  by (simp add: entity_types_def tree_def)

lemma library_types: "card (entity_types library) = 2"
  by (simp add: entity_types_def library_def library_fields)

lemma tree_valid: "valid_field_names tree"
  by (simp add: valid_field_names_def tree_def valid_field_name_def)

lemma library_valid: "valid_field_names library" "no_self_reference library"
  by (simp_all add: valid_field_names_def no_self_reference_def library_def valid_field_name_def
        library_fields)

lemma segment_count_pos: "0 < segment_count s"
  by (induction s rule: segment_count.induct) auto

lemma segment_count_prefixed:
  "valid_field_name n \<Longrightarrow> segment_count (prefixed n rest) = Suc (segment_count rest)"
proof (induction n rule: segment_count.induct)
  case 1
  show ?case by (simp add: prefixed_def)
next
  case (2 c)
  then show ?case by (simp add: prefixed_def valid_field_name_def)
next
  case (3 c d cs)
  show ?case
  proof (cases "c = CHR ''_'' \<and> d = CHR ''_''")
    case True
    with "3.prems" segment_count_pos [of cs] show ?thesis
      by (simp add: valid_field_name_def)
  next
    case False
    with "3.prems" have "valid_field_name (d # cs)"
      by (auto simp: valid_field_name_def)
    with False "3.IH"(2) have "segment_count (prefixed (d # cs) rest) = Suc (segment_count rest)"
      by blast
    with False show ?thesis by (auto simp: prefixed_def)
  qed
qed

lemma first_segment_prefixed:
  "valid_field_name n \<Longrightarrow> first_segment (prefixed n rest) = n"
proof (induction n rule: segment_count.induct)
  case 1
  show ?case by (simp add: prefixed_def)
next
  case (2 c)
  then show ?case by (simp add: prefixed_def valid_field_name_def)
next
  case (3 c d cs)
  show ?case
  proof (cases "c = CHR ''_'' \<and> d = CHR ''_''")
    case True
    with "3.prems" segment_count_pos [of cs] show ?thesis
      by (simp add: valid_field_name_def)
  next
    case False
    with "3.prems" have "valid_field_name (d # cs)"
      by (auto simp: valid_field_name_def)
    with False "3.IH"(2) have "first_segment (prefixed (d # cs) rest) = d # cs"
      by blast
    with False show ?thesis by (auto simp: prefixed_def)
  qed
qed

lemma prefixed_inject:
  assumes "valid_field_name a" "valid_field_name b" "prefixed a x = prefixed b y"
  shows "a = b"
  using first_segment_prefixed [OF assms(1), of x] first_segment_prefixed [OF assms(2), of y]
    assms(3) by simp

lemma valid_name_not_prefixed:
  assumes "valid_field_name a" "valid_field_name b"
  shows "a \<noteq> prefixed b y"
proof
  assume "a = prefixed b y"
  then have "segment_count a = Suc (segment_count y)"
    using assms(2) by (simp add: segment_count_prefixed)
  with assms(1) segment_count_pos [of y] show False by (simp add: valid_field_name_def)
qed

lemma build_possible_fields_elem:
  assumes "p \<in> build_possible_fields sch parent_model excludes"
  shows "\<exists>fr \<in> set (get_fields sch parent_model).
           (case related_model fr of None \<Rightarrow> True | Some m \<Rightarrow> m \<notin> set excludes)
           \<and> (p = name fr \<or> (\<exists>f. p = prefixed (name fr) f))"
proof -
  from assms obtain fr where fr: "fr \<in> set (get_fields sch parent_model)"
    and mem: "p \<in> walk_field (\<lambda>model. build_possible_fields sch model (excludes @ [parent_model]))
                     excludes fr {}"
    by (subst (asm) build_possible_fields_union) blast
  from mem have "(case related_model fr of None \<Rightarrow> True | Some m \<Rightarrow> m \<notin> set excludes)
           \<and> (p = name fr \<or> (\<exists>f. p = prefixed (name fr) f))"
    by (auto simp: walk_field_empty_elem split: option.splits)
  with fr show ?thesis by blast
qed

section \<open>Termination of the walker\<close>

lemma fold_walk_field_fuel:
  assumes "\<And>fr m. fr \<in> set fs \<Longrightarrow> related_model fr = Some m \<Longrightarrow> m \<notin> set ex \<Longrightarrow> rf m = Some (r m)"
  shows "fold (walk_field_fuel rf ex) fs (Some acc) = Some (fold (walk_field r ex) fs acc)"
  using assms
proof (induction fs arbitrary: acc)
  case Nil
  show ?case by simp
next
  case (Cons fr fs)
  have step: "walk_field_fuel rf ex fr (Some acc) = Some (walk_field r ex fr acc)"
    using Cons.prems [of fr] by (auto simp: walk_field_fuel_def walk_field_def split: option.splits)
  have "fold (walk_field_fuel rf ex) fs (Some (walk_field r ex fr acc))
          = Some (fold (walk_field r ex) fs (walk_field r ex fr acc))"
    by (rule Cons.IH) (auto intro: Cons.prems)
  then show ?case by (simp add: step)
qed

lemma enough_fuel:
  "walk_measure sch parent_model excludes < fuel \<Longrightarrow>
     build_possible_fields_fuel fuel sch parent_model excludes
       = Some (build_possible_fields sch parent_model excludes)"
proof (induction sch parent_model excludes arbitrary: fuel rule: build_possible_fields.induct)
  case (1 sch parent_model excludes)
  from "1.prems" obtain k where fuel: "fuel = Suc k" by (cases fuel) auto
  have "fold (walk_field_fuel (\<lambda>model. build_possible_fields_fuel k sch model (excludes @ [parent_model])) excludes)
          (get_fields sch parent_model) (Some {})
        = Some (fold (walk_field (\<lambda>model. build_possible_fields sch model (excludes @ [parent_model])) excludes)
          (get_fields sch parent_model) {})"
  proof (rule fold_walk_field_fuel)
    fix fr m
    assume fr: "fr \<in> set (get_fields sch parent_model)" and m: "related_model fr = Some m" "m \<notin> set excludes"
    have "walk_measure sch m (excludes @ [parent_model]) < walk_measure sch parent_model excludes"
      using fr m(2) by (rule walk_measure_decreases)
    with "1.prems" fuel have "walk_measure sch m (excludes @ [parent_model]) < k" by simp
    then show "build_possible_fields_fuel k sch m (excludes @ [parent_model])
                 = Some (build_possible_fields sch m (excludes @ [parent_model]))"
      using fr m by (rule "1.IH" [rotated -1])
  qed
  then show ?case
    by (simp add: fuel build_possible_fields_fuel.simps
          build_possible_fields.simps [of sch parent_model excludes])
qed

lemma recursive_calls_iff:
  "(callee, visited') \<in> set (recursive_calls sch parent_model excludes) \<longleftrightarrow>
     (\<exists>fr \<in> set (get_fields sch parent_model).
        related_model fr = Some callee \<and> callee \<notin> set excludes \<and> visited' = excludes @ [parent_model])"
  by (force simp: recursive_calls_def List.map_filter_def image_iff)

text \<open>
  C1 (amended).  For every schema, \<^verbatim>\<open>build_possible_fields(parent_model, [])\<close> returns: a budget
  of \<open>2 * n + 1\<close> nested calls is enough, where \<open>n\<close> is the number of entity types of the
  schema.  The reason is not that the set of listed entity types grows with every recursive call.
  Every recursive call passes \<^verbatim>\<open>excludes + [parent_model]\<close>, so the set never shrinks, and it
  grows strictly when the calling root was not listed yet.  Right after a self-reference the
  calling root is listed already: then the set stays the same, but the callee is outside it, so
  the next level grows it.  In both cases \<open>walk_measure\<close> decreases strictly.
\<close>

theorem build_possible_fields_terminates:
  "build_possible_fields_fuel (2 * card (entity_types sch) + 1) sch parent_model []
     = Some (build_possible_fields sch parent_model [])
   \<and> (\<forall>(callee, visited') \<in> set (recursive_calls sch root visited).
        set visited \<subseteq> set visited'
        \<and> walk_measure sch callee visited' < walk_measure sch root visited
        \<and> (root \<notin> set visited \<longrightarrow> set visited \<subset> set visited')
        \<and> (root \<in> set visited \<longrightarrow> set visited' = set visited \<and> callee \<notin> set visited'))"
proof (intro conjI ballI)
  show "build_possible_fields_fuel (2 * card (entity_types sch) + 1) sch parent_model []
     = Some (build_possible_fields sch parent_model [])"
    by (rule enough_fuel) (simp add: walk_measure_def)
next
  fix call assume call: "call \<in> set (recursive_calls sch root visited)"
  obtain callee visited' where eq: "call = (callee, visited')" by (cases call)
  from call eq obtain fr where fr: "fr \<in> set (get_fields sch root)"
    and live: "callee \<notin> set visited" and v: "visited' = visited @ [root]"
    by (auto simp: recursive_calls_iff)
  have "walk_measure sch callee visited' < walk_measure sch root visited"
    unfolding v using fr live by (rule walk_measure_decreases)
  with live v show "case call of (callee, visited') \<Rightarrow>
        set visited \<subseteq> set visited'
        \<and> walk_measure sch callee visited' < walk_measure sch root visited
        \<and> (root \<notin> set visited \<longrightarrow> set visited \<subset> set visited')
        \<and> (root \<in> set visited \<longrightarrow> set visited' = set visited \<and> callee \<notin> set visited')"
    by (auto simp: eq)
qed

theorem visited_set_growth_counterexample:
  "(Category, [Category]) \<in> set (recursive_calls shop Category [])
   \<and> (Product, [Category, Category]) \<in> set (recursive_calls shop Category [Category])
   \<and> \<not> set [Category] \<subset> set [Category, Category]"
  by (simp add: recursive_calls_def shop_fields List.map_filter_def)

theorem build_possible_fields_terminates_witness:
  "build_possible_fields_fuel 5 shop Category [] =
     Some {''parent'', ''parent__products'', ''parent__products__label'',
           ''products'', ''products__label''}
   \<and> set (recursive_calls shop Category [Category]) = {(Product, [Category, Category])}
   \<and> set [Category] = set [Category, Category]
   \<and> walk_measure shop Product [Category, Category] < walk_measure shop Category [Category]
   \<and> Product \<notin> set [Category, Category]
   \<and> set (recursive_calls shop Product [Category]) = {}
   \<and> set (recursive_calls shop Category []) = {(Category, [Category]), (Product, [Category])}
   \<and> set [] \<subset> set [Category]
   \<and> walk_measure shop Category [Category] < walk_measure shop Category []
   \<and> walk_measure shop Product [Category] < walk_measure shop Category []"
proof -
  note t = build_possible_fields_terminates [of shop Category Category "[Category]"]
  note u = build_possible_fields_terminates [of shop Category Category "[]"]
  have five: "2 * card (entity_types shop) + 1 = 5"
    by (simp add: entity_types_def shop_def shop_fields(3))
  have calls:
    "recursive_calls shop Category [Category] = [(Product, [Category, Category])]"
    "recursive_calls shop Category [] = [(Category, [Category]), (Product, [Category])]"
    "recursive_calls shop Product [Category] = []"
    by (simp_all add: recursive_calls_def shop_fields List.map_filter_def)
  from t [unfolded five] u [unfolded five] show ?thesis
    by (simp add: calls shop_Category) 
qed

section \<open>Relations whose target is already listed in \<^verbatim>\<open>excludes\<close>\<close>

text \<open>
  C2 (amended).  The guard \<^verbatim>\<open>related_model not in excludes\<close> encloses both the
  \<^verbatim>\<open>possible_fields.add(field_name)\<close> and the recursive expansion.  So a relation whose target
  is already listed in \<^verbatim>\<open>excludes\<close> is skipped entirely: its turn of the loop leaves the set of
  paths as it is, and no recursive call is made for its target.  When the field names of the
  schema are valid Django field names and no other field of the entity type has the same name,
  the result holds neither its single-segment path nor any path under its prefix.  A relation
  whose target is not listed has its single-segment path emitted, the recursive call made with
  \<^verbatim>\<open>excludes + [parent_model]\<close>, and every path of that call emitted under its prefix.
\<close>

theorem relation_to_visited_target_skipped:
  assumes "fr \<in> set (get_fields sch parent_model)" and "related_model fr = Some m"
  shows "(m \<in> set excludes \<longrightarrow>
           (\<forall>recurse possible_fields.
               walk_field recurse excludes fr possible_fields = possible_fields)
           \<and> (\<forall>call \<in> set (recursive_calls sch parent_model excludes). fst call \<noteq> m)
           \<and> (valid_field_names sch
                \<and> (\<forall>fr' \<in> set (get_fields sch parent_model). name fr' = name fr \<longrightarrow> fr' = fr)
              \<longrightarrow> name fr \<notin> build_possible_fields sch parent_model excludes
                  \<and> (\<forall>f. prefixed (name fr) f
                            \<notin> build_possible_fields sch parent_model excludes)))
       \<and> (m \<notin> set excludes \<longrightarrow>
            name fr \<in> build_possible_fields sch parent_model excludes
            \<and> (m, excludes @ [parent_model]) \<in> set (recursive_calls sch parent_model excludes)
            \<and> prefixed (name fr) ` build_possible_fields sch m (excludes @ [parent_model])
                 \<subseteq> build_possible_fields sch parent_model excludes)"
proof (intro conjI impI allI ballI)
  fix recurse possible_fields
  assume "m \<in> set excludes"
  with assms(2) show "walk_field recurse excludes fr possible_fields = possible_fields"
    by (simp add: walk_field_def)
next
  fix call
  assume "m \<in> set excludes" and call: "call \<in> set (recursive_calls sch parent_model excludes)"
  obtain callee visited where c: "call = (callee, visited)" by (cases call)
  with call have "callee \<notin> set excludes" by (auto simp: recursive_calls_iff)
  with \<open>m \<in> set excludes\<close> c show "fst call \<noteq> m" by auto
next
  assume visited: "m \<in> set excludes"
    and h: "valid_field_names sch
            \<and> (\<forall>fr' \<in> set (get_fields sch parent_model). name fr' = name fr \<longrightarrow> fr' = fr)"
  have other: "name fr' \<noteq> name fr \<and> valid_field_name (name fr')"
    if "fr' \<in> set (get_fields sch parent_model)"
      and "(case related_model fr' of None \<Rightarrow> True | Some m' \<Rightarrow> m' \<notin> set excludes)" for fr'
  proof -
    from that(2) assms(2) visited have "fr' \<noteq> fr" by auto
    with h that(1) have "name fr' \<noteq> name fr" by blast
    moreover from h that(1) have "valid_field_name (name fr')" by (blast dest: valid_field_namesD)
    ultimately show ?thesis by simp
  qed
  have valid: "valid_field_name (name fr)" using h assms(1) by (blast dest: valid_field_namesD)
  show "name fr \<notin> build_possible_fields sch parent_model excludes"
  proof
    assume "name fr \<in> build_possible_fields sch parent_model excludes"
    from build_possible_fields_elem [OF this] obtain fr'
      where fr': "fr' \<in> set (get_fields sch parent_model)"
        "(case related_model fr' of None \<Rightarrow> True | Some m' \<Rightarrow> m' \<notin> set excludes)"
        and shape: "name fr = name fr' \<or> (\<exists>f. name fr = prefixed (name fr') f)"
      by blast
    from other [OF fr'] shape valid_name_not_prefixed [OF valid, of "name fr'"]
    show False by auto
  qed
  show "prefixed (name fr) f \<notin> build_possible_fields sch parent_model excludes" for f
  proof
    assume "prefixed (name fr) f \<in> build_possible_fields sch parent_model excludes"
    from build_possible_fields_elem [OF this] obtain fr'
      where fr': "fr' \<in> set (get_fields sch parent_model)"
        "(case related_model fr' of None \<Rightarrow> True | Some m' \<Rightarrow> m' \<notin> set excludes)"
        and shape: "prefixed (name fr) f = name fr'
                    \<or> (\<exists>f'. prefixed (name fr) f = prefixed (name fr') f')"
      by blast
    note o = other [OF fr']
    from shape show False
    proof
      assume "prefixed (name fr) f = name fr'"
      with valid_name_not_prefixed [of "name fr'" "name fr" f] o valid show False by simp
    next
      assume "\<exists>f'. prefixed (name fr) f = prefixed (name fr') f'"
      then obtain f' where "prefixed (name fr) f = prefixed (name fr') f'" by blast
      with prefixed_inject [OF valid _ this] o show False by simp
    qed
  qed
next
  assume live: "m \<notin> set excludes"
  with assms have "walk_field (\<lambda>model. build_possible_fields sch model (excludes @ [parent_model]))
                     excludes fr {}
      = insert (name fr)
          (prefixed (name fr) ` build_possible_fields sch m (excludes @ [parent_model]))"
    by (simp add: walk_field_def)
  with assms(1) have sub: "insert (name fr)
          (prefixed (name fr) ` build_possible_fields sch m (excludes @ [parent_model]))
      \<subseteq> build_possible_fields sch parent_model excludes"
    by (subst (2) build_possible_fields_union) blast
  from sub show "name fr \<in> build_possible_fields sch parent_model excludes" by blast
  from sub show "prefixed (name fr) ` build_possible_fields sch m (excludes @ [parent_model])
                  \<subseteq> build_possible_fields sch parent_model excludes" by blast
  from assms live
  show "(m, excludes @ [parent_model]) \<in> set (recursive_calls sch parent_model excludes)"
    by (auto simp: recursive_calls_iff)
qed

theorem relation_to_visited_target_counterexample:
  "Field ''books'' (Some Book) \<in> set (get_fields library Author)
   \<and> Book \<in> set [Book]
   \<and> ''books'' \<notin> build_possible_fields library Author [Book]
   \<and> Field ''author'' (Some Author) \<in> set (get_fields library Book)
   \<and> ''author__books'' \<notin> build_possible_fields library Book []"
  by (simp add: library_fields library_Author_Book library_Book)

theorem relation_to_visited_target_witness:
  "set (recursive_calls library Author [Book]) = {}
   \<and> walk_field (\<lambda>model. {''title''}) [Book] (Field ''books'' (Some Book)) {''id'', ''name''}
       = {''id'', ''name''}
   \<and> ''books'' \<notin> build_possible_fields library Author [Book]
   \<and> ''books__title'' \<notin> build_possible_fields library Author [Book]
   \<and> ''author'' \<in> build_possible_fields library Book []
   \<and> set (recursive_calls library Book []) = {(Author, [Book])}
   \<and> prefixed ''author'' ` build_possible_fields library Author ([] @ [Book])
        \<subseteq> build_possible_fields library Book []"
proof -
  have calls: "recursive_calls library Author [Book] = []"
    "recursive_calls library Book [] = [(Author, [Book])]"
    by (simp_all add: recursive_calls_def library_fields List.map_filter_def)
  have unique: "\<forall>fr' \<in> set (get_fields library Author).
                  name fr' = name (Field ''books'' (Some Book)) \<longrightarrow> fr' = Field ''books'' (Some Book)"
    by (simp add: library_fields)
  note skipped = relation_to_visited_target_skipped
                   [of "Field ''books'' (Some Book)" library Author Book "[Book]"]
  note live = relation_to_visited_target_skipped
                   [of "Field ''author'' (Some Author)" library Book Author "[]"]
  from skipped unique library_valid(1)
  have a: "walk_field (\<lambda>model. {''title''}) [Book] (Field ''books'' (Some Book)) {''id'', ''name''}
       = {''id'', ''name''}"
    and b: "''books'' \<notin> build_possible_fields library Author [Book]"
    and c: "prefixed ''books'' ''title'' \<notin> build_possible_fields library Author [Book]"
    by (simp_all add: library_fields)
  from live have d: "''author'' \<in> build_possible_fields library Book []"
    and e: "prefixed ''author'' ` build_possible_fields library Author ([] @ [Book])
        \<subseteq> build_possible_fields library Book []"
    by (simp_all add: library_fields)
  from a b c d e show ?thesis by (simp add: calls prefixed_def)
qed

section \<open>Facts about the query shaping\<close>

lemma request_excludes_absent:
  "map_of params ''exclude'' = None \<or> map_of params ''exclude'' = Some '''' \<Longrightarrow>
     request_excludes params = {''''}"
  by (auto simp: request_excludes_def params_get_def)

lemma get_serializer_paths:
  "get_serializer serializer (Some params) = Inr call \<Longrightarrow>
     relations_paths call = Some (request_relations_paths serializer params)"
  by (auto simp: get_serializer_def split: sum.splits)

lemma get_queryset_shape:
  "get_queryset possible_fields serializer params = Inr queryset \<Longrightarrow>
     \<exists>d. request_depth serializer params = Inr d
       \<and> optimized queryset = [(request_relations_paths serializer params, d)]
       \<and> applied_filters queryset = filter (\<lambda>(field, value). field \<in> possible_fields) params
       \<and> applied_order queryset =
           filter (\<lambda>field. field \<in> possible_fields)
             (str_split CHR '','' (params_get params ''order_by'' ''''))"
  by (auto simp: get_queryset_def Let_def split: sum.splits if_splits)

lemma get_queryset_returns:
  "request_depth serializer params = Inr d \<Longrightarrow>
     \<exists>queryset. get_queryset possible_fields serializer params = Inr queryset"
  by (simp add: get_queryset_def Let_def)

lemma Collect_mem_insert:
  "{x \<in> insert a A. P x} = (if P a then insert a {x \<in> A. P x} else {x \<in> A. P x})"
  by auto

lemma py_int_examples:
  "py_int ''2'' = Some 2" "py_int ''abc'' = None" "py_int '''' = None" "py_int ''1.5'' = None"
  by (simp_all add: py_int_def strip_def is_space_def unsigned_int_def digit_of_def
        max_str_digits_def)

lemma digit_of_digit_char: "k < 10 \<Longrightarrow> digit_of (digit_char k) = Some k"
  by (simp add: digit_of_def digit_char_def Let_def)

lemma digit_of_Some:
  assumes "digit_of c = Some v"
  shows "c \<noteq> CHR ''-''" "c \<noteq> CHR ''+''" "c \<noteq> CHR ''_''" "\<not> is_space c" "v < 10"
  using assms by (auto simp: digit_of_def is_space_def Let_def split: if_splits)

lemma nat_str_digits: "c \<in> set (nat_str n) \<Longrightarrow> \<exists>v. digit_of c = Some v"
proof (induction n rule: nat_str.induct)
  case (1 n)
  then show ?case
    by (subst (asm) nat_str.simps) (auto simp: digit_of_digit_char split: if_splits)
qed

lemma nat_str_not_Nil: "nat_str n \<noteq> []"
  by (subst nat_str.simps) simp

lemma digits_value_digits:
  "\<forall>c \<in> set ds. digit_of c \<noteq> None \<Longrightarrow>
     digits_value acc ds = Some (foldl (\<lambda>a c. 10 * a + the (digit_of c)) acc ds)"
proof (induction acc ds rule: digits_value.induct)
  case (1 acc)
  show ?case by simp
next
  case (2 acc c)
  then show ?case by auto
next
  case (3 acc c d cs)
  from "3.prems" obtain v where v: "digit_of c = Some v" by auto
  then have "c \<noteq> CHR ''_''" by (rule digit_of_Some)
  with "3.IH"(2) [OF this v] "3.prems" v show ?case by simp
qed

lemma foldl_nat_str:
  "foldl (\<lambda>a c. 10 * a + the (digit_of c)) 0 (nat_str n) = n"
proof (induction n rule: nat_str.induct)
  case (1 n)
  show ?case
  proof (cases "n < 10")
    case True
    then show ?thesis by (subst nat_str.simps) (simp add: digit_of_digit_char)
  next
    case False
    with "1.IH" show ?thesis
      by (subst nat_str.simps) (simp add: digit_of_digit_char)
  qed
qed

lemma unsigned_int_nat_str:
  assumes "length (nat_str n) \<le> max_str_digits"
  shows "unsigned_int (nat_str n) = Some n"
proof -
  obtain c cs where s: "nat_str n = c # cs" using nat_str_not_Nil [of n] by (cases "nat_str n") auto
  have all: "\<forall>c \<in> set (nat_str n). digit_of c \<noteq> None" using nat_str_digits by fastforce
  then have "filter (\<lambda>c. digit_of c \<noteq> None) (nat_str n) = nat_str n" by simp
  with assms have short: "\<not> max_str_digits < length (filter (\<lambda>c. digit_of c \<noteq> None) (c # cs))"
    by (simp add: s)
  from all s obtain v where v: "digit_of c = Some v" by auto
  from all s have rest: "\<forall>c \<in> set cs. digit_of c \<noteq> None" by simp
  have "foldl (\<lambda>a c. 10 * a + the (digit_of c)) 0 (c # cs) = n"
    using foldl_nat_str [of n] by (simp only: s)
  then have "foldl (\<lambda>a c. 10 * a + the (digit_of c)) v cs = n" by (simp add: v)
  with digits_value_digits [OF rest, of v] have "digits_value v cs = Some n" by simp
  with short v show ?thesis unfolding s unsigned_int_def by simp
qed

lemma dropWhile_space_digit:
  "digit_of c = Some v \<Longrightarrow> dropWhile is_space (c # cs) = c # cs"
  by (simp add: digit_of_Some)

lemma strip_around:
  assumes "\<forall>c \<in> set ws. is_space c" "\<forall>c \<in> set ws'. is_space c"
    and "s \<noteq> []" "\<not> is_space (hd s)" "\<not> is_space (last s)"
  shows "strip (ws @ s @ ws') = s"
proof -
  obtain c cs where s: "s = c # cs" using assms(3) by (cases s) auto
  have a: "dropWhile is_space (ws @ s @ ws') = s @ ws'"
    using assms(1,4) by (simp add: dropWhile_append2 s)
  obtain d ds where r: "rev s = d # ds" using assms(3) by (cases "rev s") auto
  then have "d = last s" using assms(3) by (metis last_rev list.sel(1) rev_rev_ident hd_rev)
  with assms(5) have "\<not> is_space d" by simp
  then have "dropWhile is_space (rev s) = rev s" by (simp add: r)
  moreover have "dropWhile is_space (rev ws' @ rev s) = dropWhile is_space (rev s)"
    using assms(2) by (intro dropWhile_append2) simp
  ultimately have "dropWhile is_space (rev ws' @ rev s) = rev s" by simp
  with a show ?thesis by (simp add: strip_def)
qed

lemma py_int_py_str:
  assumes "length (nat_str (nat \<bar>d\<bar>)) \<le> max_str_digits"
    and "\<forall>c \<in> set ws. is_space c" "\<forall>c \<in> set ws'. is_space c"
  shows "py_int (ws @ py_str d @ ws') = Some d"
proof -
  let ?n = "nat \<bar>d\<bar>"
  obtain c cs where s: "nat_str ?n = c # cs"
    using nat_str_not_Nil [of ?n] by (cases "nat_str ?n") auto
  from nat_str_digits [of c ?n] s obtain v where v: "digit_of c = Some v" by auto
  have "last (nat_str ?n) \<in> set (nat_str ?n)" using nat_str_not_Nil by simp
  with nat_str_digits obtain w where w: "digit_of (last (nat_str ?n)) = Some w" by blast
  note first = digit_of_Some [OF v]
  note final = digit_of_Some [OF w]
  have u: "unsigned_int (c # cs) = Some ?n"
    using unsigned_int_nat_str [OF assms(1)] by (simp only: s)
  show ?thesis
  proof (cases "d < 0")
    case True
    then have p: "py_str d = CHR ''-'' # c # cs" by (simp add: py_str_def s [symmetric])
    have "last (py_str d) = last (nat_str ?n)" by (simp add: p s)
    with final(4) have "\<not> is_space (last (py_str d))" by simp
    moreover have "\<not> is_space (hd (py_str d))" by (simp add: p is_space_def)
    ultimately have "strip (ws @ py_str d @ ws') = py_str d"
      using assms(2,3) by (intro strip_around) (simp_all add: p)
    with True u show ?thesis by (simp add: py_int_def p)
  next
    case False
    then have p: "py_str d = c # cs" by (simp add: py_str_def s [symmetric])
    have "last (py_str d) = last (nat_str ?n)" by (simp add: p s)
    with final(4) have "\<not> is_space (last (py_str d))" by simp
    moreover have "\<not> is_space (hd (py_str d))" using first(4) by (simp add: p)
    ultimately have "strip (ws @ py_str d @ ws') = py_str d"
      using assms(2,3) by (intro strip_around) (simp_all add: p)
    with False u first show ?thesis by (simp add: py_int_def p)
  qed
qed

lemma set_strip: "set (strip s) \<subseteq> set s"
proof -
  have "set (strip s) \<subseteq> set (rev (dropWhile is_space s))"
    unfolding strip_def using set_dropWhileD by fastforce
  also have "\<dots> \<subseteq> set s" using set_dropWhileD by fastforce
  finally show ?thesis .
qed

lemma py_int_no_digit:
  assumes "\<forall>c \<in> set s. digit_of c = None"
  shows "py_int s = None"
proof (cases "strip s")
  case Nil
  then show ?thesis by (simp add: py_int_def)
next
  case (Cons c cs)
  with set_strip [of s] assms have none: "\<forall>x \<in> set (c # cs). digit_of x = None" by auto
  then have "unsigned_int (c # cs) = None" by (simp add: unsigned_int_def)
  moreover from none have "unsigned_int cs = None"
    by (cases cs) (simp_all add: unsigned_int_def)
  ultimately show ?thesis by (simp add: py_int_def Cons)
qed

lemma py_int_too_long:
  assumes "max_str_digits < length (nat_str n)"
  shows "py_int (nat_str n) = None"
proof -
  obtain c cs where s: "nat_str n = c # cs"
    using nat_str_not_Nil [of n] by (cases "nat_str n") auto
  have all: "\<forall>c \<in> set (nat_str n). digit_of c \<noteq> None" using nat_str_digits by fastforce
  then have f: "filter (\<lambda>c. digit_of c \<noteq> None) (nat_str n) = nat_str n" by simp
  from all s obtain v where v: "digit_of c = Some v" by auto
  obtain w where w: "digit_of (last (nat_str n)) = Some w"
    using nat_str_digits [of "last (nat_str n)" n] nat_str_not_Nil [of n] by auto
  have "strip ([] @ nat_str n @ []) = nat_str n"
    using digit_of_Some(4) [OF v] digit_of_Some(4) [OF w] nat_str_not_Nil [of n]
    by (intro strip_around) (simp_all add: s)
  then have st: "strip (nat_str n) = c # cs" by (simp add: s)
  have "unsigned_int (c # cs) = None"
    using assms f v unfolding s by (simp add: unsigned_int_def)
  with digit_of_Some(1,2) [OF v] show ?thesis by (simp add: py_int_def st)
qed

lemma py_int_long_digits:
  assumes "max_str_digits < length s" and "\<forall>c \<in> set s. digit_of c \<noteq> None"
  shows "py_int s = None"
proof -
  from assms(1) obtain c cs where s: "s = c # cs" by (cases s) auto
  from assms(2) s obtain v where v: "digit_of c = Some v" by auto
  from assms(2) s obtain w where w: "digit_of (last s) = Some w"
    using last_in_set [of s] by auto
  have f: "filter (\<lambda>c. digit_of c \<noteq> None) s = s" using assms(2) by simp
  have "strip ([] @ s @ []) = s"
    using digit_of_Some(4) [OF v] digit_of_Some(4) [OF w]
    by (intro strip_around) (simp_all add: s)
  then have st: "strip s = c # cs" by (simp add: s)
  have "unsigned_int (c # cs) = None"
    using assms(1) f v unfolding s by (simp add: unsigned_int_def)
  with digit_of_Some(1,2) [OF v] show ?thesis by (simp add: py_int_def st)
qed

lemma request_depth_errors:
  "request_depth serializer params = Inl e \<Longrightarrow> e = ValueError"
  by (auto simp: request_depth_def split: option.splits)

lemma get_serializer_depth:
  "request_depth serializer params = Inr d \<Longrightarrow>
     get_serializer serializer (Some params)
       = Inr \<lparr>depth = Some d,
              relations_paths = Some (request_relations_paths serializer params)\<rparr>"
  by (simp add: get_serializer_def)

lemma get_queryset_depth:
  assumes "request_depth serializer params = Inr d"
  shows "\<exists>queryset. get_queryset possible_fields serializer params = Inr queryset
            \<and> map snd (optimized queryset) = [d]"
proof -
  from get_queryset_returns [OF assms] obtain queryset
    where q: "get_queryset possible_fields serializer params = Inr queryset" by blast
  from get_queryset_shape [OF q] assms
  have "map snd (optimized queryset) = [d]" by auto
  with q show ?thesis by (intro exI [of _ queryset]) simp
qed

lemma depth_error:
  assumes "request_depth serializer params = Inl ValueError"
  shows "get_serializer serializer (Some params) = Inl ValueError"
    and "get_queryset possible_fields serializer params = Inl ValueError"
  using assms by (simp_all add: get_serializer_def get_queryset_def)

lemma long_digits:
  "max_str_digits < length long_digits" "\<forall>c \<in> set long_digits. digit_of c \<noteq> None"
  by (simp_all add: long_digits_def max_str_digits_def digit_of_def)

lemma py_str_example: "py_str (- 12) = ''-12''"
  by (simp add: py_str_def nat_str.simps digit_char_def) code_simp

lemma nat_str_example: "length (nat_str (nat \<bar>- 12\<bar>)) \<le> max_str_digits"
  by (simp add: nat_str.simps max_str_digits_def)

section \<open>Exclusion of relation paths\<close>

text \<open>
  C3.  The docstring of \<^verbatim>\<open>get_queryset\<close> has the entries of \<^verbatim>\<open>exclude\<close> name nested models,
  nested ones separated by \<^verbatim>\<open>__\<close>, and a path is to be removed only when an entry matches it
  on whole segments.  The code tests \<^verbatim>\<open>path.startswith(exclude)\<close>.  For the request
  \<^verbatim>\<open>exclude=author\<close> it removes \<^verbatim>\<open>author\<close> and its subtree, as it should, and with them the
  sibling relation \<^verbatim>\<open>author_profile\<close>, which no entry matches on whole segments: the set the
  code computes is smaller than the set of the whole-segment rule.
\<close>

theorem exclude_removes_sibling_path:
  "request_excludes [(''exclude'', ''author'')] = {''author''}
   \<and> all_related_paths blog_serializer
       = {''author'', ''author__profile'', ''author_profile'', ''comments'', ''comments__author''}
   \<and> request_relations_paths blog_serializer [(''exclude'', ''author'')]
       = {''comments'', ''comments__author''}
   \<and> spec_relations_paths blog_serializer [(''exclude'', ''author'')]
       = {''author_profile'', ''comments'', ''comments__author''}
   \<and> \<not> spec_whole_segment_prefix ''author'' ''author_profile''
   \<and> ''author_profile'' \<notin> request_relations_paths blog_serializer [(''exclude'', ''author'')]"
proof -
  have ex: "request_excludes [(''exclude'', ''author'')] = {''author''}"
    by (simp add: request_excludes_def params_get_def)
  have all: "all_related_paths blog_serializer
       = {''author'', ''author__profile'', ''author_profile'', ''comments'', ''comments__author''}"
    by (simp add: blog_serializer_def)
  have code: "request_relations_paths blog_serializer [(''exclude'', ''author'')]
       = {''comments'', ''comments__author''}"
    by (simp add: request_relations_paths_def ex all Collect_mem_insert del: insert_iff)
  have spec: "spec_relations_paths blog_serializer [(''exclude'', ''author'')]
       = {''author_profile'', ''comments'', ''comments__author''}"
    by (simp add: spec_relations_paths_def spec_whole_segment_prefix_def ex all
          Collect_mem_insert del: insert_iff)
  have "\<not> spec_whole_segment_prefix ''author'' ''author_profile''"
    by (simp add: spec_whole_segment_prefix_def)
  with ex all code spec show ?thesis by simp
qed

section \<open>Filter keys and ordering entries\<close>

text \<open>
  C4.  Whenever the depth is readable, \<^verbatim>\<open>get_queryset\<close> returns a queryset, whatever the
  other parameters are.  The filters it applies are exactly the request's parameters whose key is
  in \<^verbatim>\<open>_possible_fields\<close>; a parameter with any other key is applied nowhere.  The ordering it
  applies is the list of the \<^verbatim>\<open>order_by\<close> entries that are in \<^verbatim>\<open>_possible_fields\<close>, in the
  order the caller gave them; the other entries are left out.
\<close>

theorem unknown_fields_dropped:
  assumes "request_depth serializer params = Inr d"
  shows "\<exists>queryset. get_queryset possible_fields serializer params = Inr queryset
     \<and> applied_filters queryset = filter (\<lambda>(field, value). field \<in> possible_fields) params
     \<and> applied_order queryset =
          filter (\<lambda>field. field \<in> possible_fields)
            (str_split CHR '','' (params_get params ''order_by'' ''''))
     \<and> (\<forall>(field, value) \<in> set params.
           (field, value) \<in> set (applied_filters queryset) \<longleftrightarrow> field \<in> possible_fields)
     \<and> fst ` set (applied_filters queryset) \<subseteq> possible_fields
     \<and> (\<forall>field \<in> set (str_split CHR '','' (params_get params ''order_by'' '''')).
           field \<in> set (applied_order queryset) \<longleftrightarrow> field \<in> possible_fields)
     \<and> subseq (applied_order queryset) (str_split CHR '','' (params_get params ''order_by'' ''''))"
proof -
  from get_queryset_returns [OF assms] obtain queryset
    where q: "get_queryset possible_fields serializer params = Inr queryset" by blast
  from get_queryset_shape [OF q]
  have f: "applied_filters queryset = filter (\<lambda>(field, value). field \<in> possible_fields) params"
    and ob: "applied_order queryset =
          filter (\<lambda>field. field \<in> possible_fields)
            (str_split CHR '','' (params_get params ''order_by'' ''''))"
    by auto
  have "subseq (applied_order queryset) (str_split CHR '','' (params_get params ''order_by'' ''''))"
    unfolding ob by simp
  moreover have "\<forall>(field, value) \<in> set params.
           (field, value) \<in> set (applied_filters queryset) \<longleftrightarrow> field \<in> possible_fields"
    unfolding f by auto
  moreover have "fst ` set (applied_filters queryset) \<subseteq> possible_fields"
    unfolding f by auto
  moreover have "\<forall>field \<in> set (str_split CHR '','' (params_get params ''order_by'' '''')).
           field \<in> set (applied_order queryset) \<longleftrightarrow> field \<in> possible_fields"
    unfolding ob by auto
  ultimately show ?thesis using q f ob by (intro exI [of _ queryset]) simp
qed

theorem unknown_fields_dropped_witness:
  "request_depth blog_serializer book_request = Inr 2
   \<and> get_queryset (build_possible_fields library Book []) blog_serializer book_request
       = Inr [Optimize (all_related_paths blog_serializer) 2,
              Filter [(''author__name'', ''Ann'')],
              OrderBy [''title'', ''id'']]"
proof -
  have d: "request_depth blog_serializer book_request = Inr 2"
    by (simp add: request_depth_def book_request_def py_int_examples)
  have paths: "request_relations_paths blog_serializer book_request
                 = all_related_paths blog_serializer"
    by (simp add: request_relations_paths_def request_excludes_def params_get_def
          book_request_def)
  have q: "get_queryset (build_possible_fields library Book []) blog_serializer book_request
       = Inr [Optimize (all_related_paths blog_serializer) 2,
              Filter [(''author__name'', ''Ann'')],
              OrderBy [''title'', ''id'']]"
    by (simp add: get_queryset_def d paths library_Book)
       (simp add: book_request_def params_get_def)
  from unknown_fields_dropped [OF d, of "build_possible_fields library Book []"]
  show ?thesis by (simp add: d q)
qed

section \<open>Facts about the registry\<close>

lemma init_subclass_next:
  "next_class_id (snd (init_subclass sch ds cls st)) = next_class_id st"
  by (simp add: init_subclass_def Let_def split: option.splits)

lemma class_statement_next:
  assumes "class_statement sch ds base body st = (cls, st')"
  shows "next_class_id st' = Suc (next_class_id st)"
proof -
  have "next_class_id (snd (class_statement sch ds base body st)) = Suc (next_class_id st)"
    by (simp add: class_statement_def init_subclass_next)
  with assms show ?thesis by simp
qed

lemma class_statement_registers:
  assumes "class_statement sch ds base body st = (cls, st')" and "queryset_model cls = Some m"
  shows "viewsets st' = (viewsets st)(view_set_name (use_case cls) m \<mapsto> cls)"
  using assms
  by (auto simp: class_statement_def init_subclass_def Let_def split: option.splits if_splits)

lemma class_statement_generated:
  "class_statement sch ds cls
     \<lparr>body_use_case = Some uc, body_queryset = Some m, body_serializer_class = None\<rparr> st
     = (c, st') \<Longrightarrow>
   queryset_model c = Some m \<and> use_case c = uc \<and> class_id c = next_class_id st
   \<and> possible_fields_of c = Some (build_possible_fields sch m [])"
  by (auto simp: class_statement_def init_subclass_def Let_def split: option.splits if_splits)

lemma get_view_set_class_hit:
  assumes "viewsets st (view_set_name uc m) = Some h"
  shows "get_view_set_class sch ds cls m uc st = (Inr h, st)"
  using assms by (simp add: get_view_set_class_def dom_def)

lemma get_view_set_class_miss:
  assumes "viewsets st (view_set_name uc m) = None"
  shows "\<exists>h. get_view_set_class sch ds cls m uc st
           = (Inr h, \<lparr>viewsets = (viewsets st)(view_set_name uc m \<mapsto> h),
                      next_class_id = Suc (next_class_id st)\<rparr>)
         \<and> class_id h = next_class_id st \<and> queryset_model h = Some m \<and> use_case h = uc
         \<and> possible_fields_of h = Some (build_possible_fields sch m [])"
proof -
  obtain c st' where cs: "class_statement sch ds cls
     \<lparr>body_use_case = Some uc, body_queryset = Some m, body_serializer_class = None\<rparr> st = (c, st')"
    by (cases "class_statement sch ds cls
     \<lparr>body_use_case = Some uc, body_queryset = Some m, body_serializer_class = None\<rparr> st")
  note g = class_statement_generated [OF cs]
  from class_statement_registers [OF cs] g
  have v: "viewsets st' = (viewsets st)(view_set_name uc m \<mapsto> c)" by simp
  have n: "next_class_id st' = Suc (next_class_id st)"
    using cs by (rule class_statement_next)
  have st': "st' = \<lparr>viewsets = (viewsets st)(view_set_name uc m \<mapsto> c),
                      next_class_id = Suc (next_class_id st)\<rparr>"
    using v n by simp
  from assms cs have "get_view_set_class sch ds cls m uc st = (Inr c, st')"
    by (simp add: get_view_set_class_def dom_def v)
  with st' g show ?thesis by blast
qed

lemma get_view_set_class_cases:
  obtains (hit) h where "viewsets st (view_set_name uc m) = Some h"
      "get_view_set_class sch ds cls m uc st = (Inr h, st)"
  | (miss) h where "viewsets st (view_set_name uc m) = None"
      "get_view_set_class sch ds cls m uc st
         = (Inr h, \<lparr>viewsets = (viewsets st)(view_set_name uc m \<mapsto> h),
                    next_class_id = Suc (next_class_id st)\<rparr>)"
proof (cases "viewsets st (view_set_name uc m)")
  case None
  with get_view_set_class_miss [OF None, of sch ds cls] miss show ?thesis by blast
next
  case (Some h)
  with get_view_set_class_hit [OF Some, of sch ds cls] hit show ?thesis by blast
qed

lemma lookup_keeps_entry:
  assumes "viewsets st k = Some h"
  shows "viewsets (snd (get_view_set_class sch ds cls m uc st)) k = Some h"
proof (cases rule: get_view_set_class_cases [of st uc m sch ds cls])
  case (hit h')
  with assms show ?thesis by simp
next
  case (miss h')
  with assms have "k \<noteq> view_set_name uc m" by auto
  with assms miss show ?thesis by simp
qed

lemma lookups_keep_entry:
  "viewsets st k = Some h \<Longrightarrow> viewsets (lookups sch ds requests st) k = Some h"
proof (induction requests arbitrary: st)
  case Nil
  then show ?case by simp
next
  case (Cons request requests)
  obtain cls m uc where r: "request = (cls, m, uc)" by (cases request)
  from Cons.prems have "viewsets (snd (get_view_set_class sch ds cls m uc st)) k = Some h"
    by (rule lookup_keeps_entry)
  then show ?case unfolding r by (simp add: Cons.IH)
qed

lemma lookup_step:
  "dom (viewsets (snd (get_view_set_class sch ds cls m uc st)))
     = insert (view_set_name uc m) (dom (viewsets st))
   \<and> next_class_id (snd (get_view_set_class sch ds cls m uc st))
     = next_class_id st + (if view_set_name uc m \<in> dom (viewsets st) then 0 else 1)"
proof (cases rule: get_view_set_class_cases [of st uc m sch ds cls])
  case (hit h)
  then show ?thesis by auto
next
  case (miss h)
  then show ?thesis by auto
qed

lemma card_new_keys:
  assumes "finite K"
  shows "card (insert k K - D) = (if k \<in> D then 0 else 1) + card (K - insert k D)"
proof (cases "k \<in> D")
  case True
  then have "insert k K - D = K - insert k D" by blast
  then have "card (insert k K - D) = card (K - insert k D)" by (rule arg_cong)
  with True show ?thesis by (simp only: if_True add_0)
next
  case False
  then have eq: "insert k K - D = insert k (K - insert k D)" by blast
  have fin: "finite (K - insert k D)" using assms by (rule finite_Diff)
  have notin: "k \<notin> K - insert k D" by blast
  have "card (insert k (K - insert k D)) = Suc (card (K - insert k D))"
    using fin notin by (rule card_insert_disjoint)
  then have "card (insert k K - D) = Suc (card (K - insert k D))" by (simp only: eq)
  with False show ?thesis by (simp only: if_False plus_1_eq_Suc)
qed

lemma lookups_count:
  "next_class_id (lookups sch ds requests st)
     = next_class_id st + card (request_key ` set requests - dom (viewsets st))"
proof (induction requests arbitrary: st)
  case Nil
  show ?case by simp
next
  case (Cons request requests)
  obtain cls m uc where r: "request = (cls, m, uc)" by (cases request)
  let ?st1 = "snd (get_view_set_class sch ds cls m uc st)"
  note step = lookup_step [of sch ds cls m uc st]
  have "next_class_id (lookups sch ds (request # requests) st)
          = next_class_id ?st1 + card (request_key ` set requests - dom (viewsets ?st1))"
    unfolding r by (simp add: Cons.IH)
  also have "\<dots> = next_class_id st
          + ((if view_set_name uc m \<in> dom (viewsets st) then 0 else 1)
             + card (request_key ` set requests - insert (view_set_name uc m) (dom (viewsets st))))"
    using step by simp
  also have "\<dots> = next_class_id st
          + card (insert (view_set_name uc m) (request_key ` set requests) - dom (viewsets st))"
    by (subst card_new_keys [of "request_key ` set requests"]) simp_all
  finally show ?case by (simp add: r request_key_def)
qed

lemma book_key: "view_set_name '''' Book = ''BookViewSet''"
  "view_set_name '''' Author = ''AuthorViewSet''"
  by (simp_all add: view_set_name_def Book_def Author_def)





lemma generate_book:
  "get_view_set_class library example_serializer DeepViewSet Book '''' initial_registry
     = (Inr generated_book, registry_generated)"
  by (simp add: get_view_set_class_def class_statement_def init_subclass_def Let_def book_key
        initial_registry_def DeepViewSet_def ReadOnlyDeepViewSet_def generated_book_def
        registry_generated_def)

lemma manual_after_generated:
  "class_statement library example_serializer DeepViewSet book_body registry_generated
     = (ManualBookViewSet, registry_manual)"
  by (simp add: class_statement_def init_subclass_def Let_def book_body_def registry_generated_def
        DeepViewSet_def ReadOnlyDeepViewSet_def ManualBookViewSet_def generated_book_def
        registry_manual_def book_key)

section \<open>Lookups in the registry\<close>

text \<open>
  C5 (amended).  A call \<^verbatim>\<open>get_view_set_class(model, use_case)\<close> returns a view-set class and
  never \<^verbatim>\<open>KeyError\<close>.  Asking again for the same model and use case, from any class and after
  any further lookups, returns the identical class object and leaves the registry as it is: no
  class is created and no path set is computed.  Over a whole sequence of lookups the number of
  classes created is the number of distinct keys that were not registered before, so lookups
  build a class at most once per key.  This holds as long as only lookups come between the two
  requests: a class statement for the same use case and model name in between stores its own
  class under the key, and the second request returns that class.
\<close>

theorem lookup_idempotent:
  assumes "get_view_set_class sch ds cls model uc st = (result, st1)"
  shows "\<exists>handler. result = Inr handler
     \<and> get_view_set_class sch ds cls' model uc st1 = (Inr handler, st1)
     \<and> get_view_set_class sch ds cls' model uc (lookups sch ds requests st1)
          = (Inr handler, lookups sch ds requests st1)
     \<and> next_class_id (lookups sch ds requests st1)
          = next_class_id st1 + card (request_key ` set requests - dom (viewsets st1))"
proof -
  obtain handler where h: "result = Inr handler"
    and entry: "viewsets st1 (view_set_name uc model) = Some handler"
    using assms by (cases rule: get_view_set_class_cases [of st uc model sch ds cls]) auto
  have "get_view_set_class sch ds cls' model uc st1 = (Inr handler, st1)"
    using entry by (rule get_view_set_class_hit)
  moreover have "get_view_set_class sch ds cls' model uc (lookups sch ds requests st1)
          = (Inr handler, lookups sch ds requests st1)"
    using lookups_keep_entry [OF entry] by (rule get_view_set_class_hit)
  ultimately show ?thesis using h lookups_count by blast
qed

theorem lookup_idempotent_witness:
  "get_view_set_class library example_serializer DeepViewSet Book '''' initial_registry
     = (Inr generated_book, registry_generated)
   \<and> get_view_set_class library example_serializer ReadOnlyDeepViewSet Book '''' registry_generated
     = (Inr generated_book, registry_generated)
   \<and> get_view_set_class library example_serializer ReadOnlyDeepViewSet Book ''''
        (lookups library example_serializer
           [(DeepViewSet, Author, ''''), (DeepViewSet, Book, ''''), (DeepViewSet, Author, '''')]
           registry_generated)
     = (Inr generated_book,
        lookups library example_serializer
           [(DeepViewSet, Author, ''''), (DeepViewSet, Book, ''''), (DeepViewSet, Author, '''')]
           registry_generated)
   \<and> next_class_id
        (lookups library example_serializer
           [(DeepViewSet, Author, ''''), (DeepViewSet, Book, ''''), (DeepViewSet, Author, '''')]
           registry_generated) = 5"
proof -
  let ?requests = "[(DeepViewSet, Author, ''''), (DeepViewSet, Book, ''''), (DeepViewSet, Author, '''')]"
  have keys: "request_key ` set ?requests - dom (viewsets registry_generated) = {''AuthorViewSet''}"
    by (auto simp: request_key_def book_key registry_generated_def)
  have next_id: "next_class_id registry_generated = 4"
    by (simp add: registry_generated_def)
  from lookup_idempotent [OF generate_book, of ReadOnlyDeepViewSet ?requests]
  show ?thesis
    unfolding keys next_id by (simp add: generate_book del: lookups.simps)
qed

theorem lookup_after_class_statement_counterexample:
  "get_view_set_class library example_serializer DeepViewSet Book '''' initial_registry
     = (Inr generated_book, registry_generated)
   \<and> class_statement library example_serializer DeepViewSet book_body registry_generated
     = (ManualBookViewSet, registry_manual)
   \<and> get_view_set_class library example_serializer DeepViewSet Book '''' registry_manual
     = (Inr ManualBookViewSet, registry_manual)
   \<and> ManualBookViewSet \<noteq> generated_book
   \<and> next_class_id initial_registry = 3 \<and> next_class_id registry_manual = 5
   \<and> dom (viewsets registry_manual) = {''BookViewSet''}"
proof -
  have hit: "get_view_set_class library example_serializer DeepViewSet Book '''' registry_manual
     = (Inr ManualBookViewSet, registry_manual)"
    by (rule get_view_set_class_hit) (simp add: registry_manual_def book_key)
  have "class_id ManualBookViewSet \<noteq> class_id generated_book"
    by (simp add: ManualBookViewSet_def generated_book_def)
  then have "ManualBookViewSet \<noteq> generated_book" by auto
  moreover have "next_class_id initial_registry = 3" "next_class_id registry_manual = 5"
    "dom (viewsets registry_manual) = {''BookViewSet''}"
    by (simp_all add: initial_registry_def registry_manual_def)
  ultimately show ?thesis
    using hit generate_book manual_after_generated by simp
qed

section \<open>Manual registration\<close>




section \<open>The length of the enumerated paths\<close>

lemma segment_count_le_measure:
  "valid_field_names sch \<Longrightarrow> p \<in> build_possible_fields sch parent_model excludes \<Longrightarrow>
     segment_count p \<le> walk_measure sch parent_model excludes"
proof (induction sch parent_model excludes arbitrary: p rule: build_possible_fields.induct)
  case (1 sch parent_model excludes)
  from "1.prems"(2) show ?case
  proof (cases rule: build_possible_fields_cases)
    case (1 fr)
    have "segment_count (name fr) = 1"
      using valid_field_namesD [OF "1.prems"(1) 1(1)] by (simp add: valid_field_name_def)
    with walk_measure_pos [OF 1(1), of excludes] 1(2) show ?thesis by simp
  next
    case (2 fr m f)
    have "segment_count f \<le> walk_measure sch m (excludes @ [parent_model])"
      using 2(1,2,3) "1.prems"(1) 2(4) by (rule "1.IH")
    moreover have "walk_measure sch m (excludes @ [parent_model]) < walk_measure sch parent_model excludes"
      using 2(1,3) by (rule walk_measure_decreases)
    moreover have "segment_count p = Suc (segment_count f)"
      using valid_field_namesD [OF "1.prems"(1) 2(1)] 2(5) by (simp add: segment_count_prefixed)
    ultimately show ?thesis by simp
  qed
qed

lemma segment_count_le_unvisited:
  "valid_field_names sch \<Longrightarrow> no_self_reference sch \<Longrightarrow> parent_model \<notin> set excludes \<Longrightarrow>
   p \<in> build_possible_fields sch parent_model excludes \<Longrightarrow>
     segment_count p \<le> card (entity_types sch - set excludes)"
proof (induction sch parent_model excludes arbitrary: p rule: build_possible_fields.induct)
  case (1 sch parent_model excludes)
  have fin: "finite (entity_types sch - set excludes)" by (simp add: entity_types_def)
  from "1.prems"(4) show ?case
  proof (cases rule: build_possible_fields_cases)
    case (1 fr)
    have "segment_count (name fr) = 1"
      using valid_field_namesD [OF "1.prems"(1) 1(1)] by (simp add: valid_field_name_def)
    moreover have "parent_model \<in> entity_types sch - set excludes"
      using get_fields_entity [OF 1(1)] "1.prems"(3) by simp
    with fin have "0 < card (entity_types sch - set excludes)" by (auto simp: card_gt_0_iff)
    ultimately show ?thesis using 1(2) by simp
  next
    case (2 fr m f)
    have mem: "parent_model \<in> entity_types sch - set excludes"
      using get_fields_entity [OF 2(1)] "1.prems"(3) by simp
    have "m \<noteq> parent_model" using no_self_referenceD [OF "1.prems"(2) 2(1)] 2(2) by auto
    with 2(3) have fresh: "m \<notin> set (excludes @ [parent_model])" by simp
    from 2(1,2,3) "1.prems"(1,2) fresh 2(4)
    have "segment_count f \<le> card (entity_types sch - set (excludes @ [parent_model]))"
      by (rule "1.IH")
    moreover have "entity_types sch - set (excludes @ [parent_model])
          = (entity_types sch - set excludes) - {parent_model}" by auto
    then have "card (entity_types sch - set (excludes @ [parent_model]))
          = card (entity_types sch - set excludes) - 1"
      using fin mem by simp
    moreover have "0 < card (entity_types sch - set excludes)"
      using fin mem by (auto simp: card_gt_0_iff)
    moreover have "segment_count p = Suc (segment_count f)"
      using valid_field_namesD [OF "1.prems"(1) 2(1)] 2(5) by (simp add: segment_count_prefixed)
    ultimately show ?thesis by simp
  qed
qed

text \<open>
  C7 (amended).  Let \<open>n\<close> be the number of entity types of the schema, and let every field name
  be a valid Django field name.  Every path of \<^verbatim>\<open>build_possible_fields(parent_model, [])\<close> has at
  most \<open>2 * n\<close> segments; when no entity type has a relation to itself, it has at most \<open>n\<close>.
  The guard tests the target of a relation against \<^verbatim>\<open>excludes\<close>, which does not hold the
  current root yet, so a self-reference is followed once and each entity type can occur twice in
  a row along a path.
\<close>

theorem path_segment_bound:
  assumes "valid_field_names sch" and "p \<in> build_possible_fields sch parent_model []"
  shows "segment_count p \<le> 2 * card (entity_types sch)
         \<and> (no_self_reference sch \<longrightarrow> segment_count p \<le> card (entity_types sch))"
proof
  from segment_count_le_measure [OF assms] show "segment_count p \<le> 2 * card (entity_types sch)"
    by (simp add: walk_measure_def)
  show "no_self_reference sch \<longrightarrow> segment_count p \<le> card (entity_types sch)"
    using segment_count_le_unvisited [OF assms(1) _ _ assms(2)] by simp
qed

theorem path_segment_bound_counterexample:
  "valid_field_names tree
   \<and> ''parent__title'' \<in> build_possible_fields tree Category []
   \<and> segment_count ''parent__title'' = 2
   \<and> card (entity_types tree) = 1
   \<and> \<not> segment_count ''parent__title'' \<le> card (entity_types tree)"
  by (simp add: tree_valid tree_Category tree_types)

theorem path_segment_bound_witness:
  "valid_field_names tree
   \<and> ''parent__title'' \<in> build_possible_fields tree Category []
   \<and> segment_count ''parent__title'' \<le> 2 * card (entity_types tree)
   \<and> valid_field_names library \<and> no_self_reference library
   \<and> ''author__name'' \<in> build_possible_fields library Book []
   \<and> segment_count ''author__name'' \<le> card (entity_types library)"
  using path_segment_bound [of tree "''parent__title''" Category]
    path_segment_bound [of library "''author__name''" Book]
  by (simp add: tree_valid tree_Category library_valid library_Book)

section \<open>The effective depth\<close>

text \<open>
  C8 (amended).  The depth handed to the serializer and to \<^verbatim>\<open>optimize_queryset\<close> is the
  request's \<^verbatim>\<open>depth\<close> parameter, read by \<^verbatim>\<open>int\<close>, when the parameter is present, and the
  serializer's \<^verbatim>\<open>Meta.original_depth\<close> otherwise.  In particular the parameter \<^verbatim>\<open>str(d)\<close> of an
  integer \<open>d\<close> with at most 4300 digits, also with whitespace around it, gives the depth \<open>d\<close>.
  When the parameter is present and \<^verbatim>\<open>int\<close> refuses it, as it does for a string without a digit
  and for a string of more than 4300 digits, Python's \<^verbatim>\<open>ValueError\<close> leaves \<^verbatim>\<open>get_serializer\<close>
  and \<^verbatim>\<open>get_queryset\<close>: no serializer and no queryset is returned, so the default never stands
  in for a malformed depth.  The exception is the built-in one as \<^verbatim>\<open>int\<close> raised it;
  \<^verbatim>\<open>views.py\<close> does not turn it into a client-input error.
\<close>

theorem effective_depth:
  "(map_of params ''depth'' = None \<longrightarrow>
      get_serializer serializer (Some params)
        = Inr \<lparr>depth = Some (original_depth serializer),
               relations_paths = Some (request_relations_paths serializer params)\<rparr>
      \<and> (\<exists>queryset. get_queryset possible_fields serializer params = Inr queryset
            \<and> map snd (optimized queryset) = [original_depth serializer]))
   \<and> (\<forall>s d. map_of params ''depth'' = Some s \<and> py_int s = Some d \<longrightarrow>
      get_serializer serializer (Some params)
        = Inr \<lparr>depth = Some d,
               relations_paths = Some (request_relations_paths serializer params)\<rparr>
      \<and> (\<exists>queryset. get_queryset possible_fields serializer params = Inr queryset
            \<and> map snd (optimized queryset) = [d]))
   \<and> (\<forall>d ws ws'. map_of params ''depth'' = Some (ws @ py_str d @ ws')
          \<and> length (nat_str (nat \<bar>d\<bar>)) \<le> max_str_digits
          \<and> (\<forall>c \<in> set (ws @ ws'). is_space c) \<longrightarrow>
      get_serializer serializer (Some params)
        = Inr \<lparr>depth = Some d,
               relations_paths = Some (request_relations_paths serializer params)\<rparr>
      \<and> (\<exists>queryset. get_queryset possible_fields serializer params = Inr queryset
            \<and> map snd (optimized queryset) = [d]))
   \<and> (\<forall>s. map_of params ''depth'' = Some s \<and> py_int s = None \<longrightarrow>
      get_serializer serializer (Some params) = Inl ValueError
      \<and> get_queryset possible_fields serializer params = Inl ValueError)
   \<and> (\<forall>s. map_of params ''depth'' = Some s
          \<and> ((\<forall>c \<in> set s. digit_of c = None)
              \<or> max_str_digits < length s \<and> (\<forall>c \<in> set s. digit_of c \<noteq> None)) \<longrightarrow>
      get_serializer serializer (Some params) = Inl ValueError
      \<and> get_queryset possible_fields serializer params = Inl ValueError)
   \<and> (\<forall>e. get_serializer serializer (Some params) = Inl e
            \<or> get_queryset possible_fields serializer params = Inl e \<longrightarrow>
      e = ValueError \<and> \<not> client_input_error e)"
proof (intro conjI allI impI)
  assume "map_of params ''depth'' = None"
  then have d: "request_depth serializer params = Inr (original_depth serializer)"
    by (simp add: request_depth_def)
  from d show "get_serializer serializer (Some params)
        = Inr \<lparr>depth = Some (original_depth serializer),
               relations_paths = Some (request_relations_paths serializer params)\<rparr>"
    by (rule get_serializer_depth)
  from d show "\<exists>queryset. get_queryset possible_fields serializer params = Inr queryset
            \<and> map snd (optimized queryset) = [original_depth serializer]"
    by (rule get_queryset_depth)
next
  fix s d assume "map_of params ''depth'' = Some s \<and> py_int s = Some d"
  then have d: "request_depth serializer params = Inr d"
    by (simp add: request_depth_def)
  from d show "get_serializer serializer (Some params)
        = Inr \<lparr>depth = Some d,
               relations_paths = Some (request_relations_paths serializer params)\<rparr>"
    by (rule get_serializer_depth)
  from d show "\<exists>queryset. get_queryset possible_fields serializer params = Inr queryset
            \<and> map snd (optimized queryset) = [d]"
    by (rule get_queryset_depth)
next
  fix d ws ws'
  assume h: "map_of params ''depth'' = Some (ws @ py_str d @ ws')
          \<and> length (nat_str (nat \<bar>d\<bar>)) \<le> max_str_digits
          \<and> (\<forall>c \<in> set (ws @ ws'). is_space c)"
  then have "py_int (ws @ py_str d @ ws') = Some d"
    by (intro py_int_py_str) auto
  with h have d: "request_depth serializer params = Inr d"
    by (simp add: request_depth_def)
  from d show "get_serializer serializer (Some params)
        = Inr \<lparr>depth = Some d,
               relations_paths = Some (request_relations_paths serializer params)\<rparr>"
    by (rule get_serializer_depth)
  from d show "\<exists>queryset. get_queryset possible_fields serializer params = Inr queryset
            \<and> map snd (optimized queryset) = [d]"
    by (rule get_queryset_depth)
next
  fix s assume "map_of params ''depth'' = Some s \<and> py_int s = None"
  then have d: "request_depth serializer params = Inl ValueError"
    by (simp add: request_depth_def)
  from d show "get_serializer serializer (Some params) = Inl ValueError"
    by (rule depth_error)
  from d show "get_queryset possible_fields serializer params = Inl ValueError"
    by (rule depth_error)
next
  fix s
  assume h: "map_of params ''depth'' = Some s
          \<and> ((\<forall>c \<in> set s. digit_of c = None)
              \<or> max_str_digits < length s \<and> (\<forall>c \<in> set s. digit_of c \<noteq> None))"
  then have "py_int s = None"
    using py_int_no_digit [of s] py_int_long_digits [of s] by blast
  with h have d: "request_depth serializer params = Inl ValueError"
    by (simp add: request_depth_def)
  from d show "get_serializer serializer (Some params) = Inl ValueError"
    by (rule depth_error)
  from d show "get_queryset possible_fields serializer params = Inl ValueError"
    by (rule depth_error)
next
  fix e
  assume "get_serializer serializer (Some params) = Inl e
            \<or> get_queryset possible_fields serializer params = Inl e"
  then have "request_depth serializer params = Inl e"
    by (auto simp: get_serializer_def get_queryset_def Let_def split: sum.splits)
  then have e: "e = ValueError" by (rule request_depth_errors)
  from e show "e = ValueError" .
  from e show "\<not> client_input_error e" by simp
qed

theorem malformed_depth_counterexample:
  "get_serializer blog_serializer (Some [(''depth'', ''abc'')]) = Inl ValueError
   \<and> get_queryset {} blog_serializer [(''depth'', ''abc'')] = Inl ValueError
   \<and> \<not> client_input_error ValueError"
  by (simp add: get_serializer_def get_queryset_def request_depth_def py_int_examples)

theorem effective_depth_witness:
  "get_serializer blog_serializer (Some [(''order_by'', ''id'')])
     = Inr \<lparr>depth = Some 1, relations_paths = Some (all_related_paths blog_serializer)\<rparr>
   \<and> get_queryset {} blog_serializer [(''order_by'', ''id'')]
     = Inr [Optimize (all_related_paths blog_serializer) 1]
   \<and> get_serializer blog_serializer (Some [(''depth'', ''2'')])
     = Inr \<lparr>depth = Some 2, relations_paths = Some (all_related_paths blog_serializer)\<rparr>
   \<and> get_queryset {} blog_serializer [(''depth'', ''2'')]
     = Inr [Optimize (all_related_paths blog_serializer) 2]
   \<and> get_serializer blog_serializer (Some [(''depth'', CHR 0xA0 # ''-12 '')])
     = Inr \<lparr>depth = Some (- 12), relations_paths = Some (all_related_paths blog_serializer)\<rparr>
   \<and> get_serializer blog_serializer (Some [(''depth'', ''abc'')]) = Inl ValueError
   \<and> get_queryset {} blog_serializer [(''depth'', ''abc'')] = Inl ValueError
   \<and> get_serializer blog_serializer (Some [(''depth'', '''')]) = Inl ValueError
   \<and> get_serializer blog_serializer (Some [(''depth'', long_digits)]) = Inl ValueError
   \<and> get_queryset {} blog_serializer [(''depth'', long_digits)] = Inl ValueError"
proof -
  have paths: "request_relations_paths blog_serializer [(''order_by'', ''id'')]
                 = all_related_paths blog_serializer"
    "request_relations_paths blog_serializer [(''depth'', ''2'')]
                 = all_related_paths blog_serializer"
    "request_relations_paths blog_serializer [(''depth'', CHR 0xA0 # ''-12 '')]
                 = all_related_paths blog_serializer"
    by (simp_all add: request_relations_paths_def request_excludes_def params_get_def)
  have original: "original_depth blog_serializer = 1" by (simp add: blog_serializer_def)
  have q: "get_queryset {} blog_serializer [(''order_by'', ''id'')]
     = Inr [Optimize (all_related_paths blog_serializer) 1]"
    "get_queryset {} blog_serializer [(''depth'', ''2'')]
     = Inr [Optimize (all_related_paths blog_serializer) 2]"
    by (simp_all add: get_queryset_def request_depth_def py_int_examples paths original
          params_get_def)
  have spaces: "\<forall>c \<in> set ([CHR 0xA0] @ '' ''). is_space c" by (simp add: is_space_def)
  note t = effective_depth [of _ blog_serializer "{}"]
  from t [of "[(''order_by'', ''id'')]"]
  have a: "get_serializer blog_serializer (Some [(''order_by'', ''id'')])
     = Inr \<lparr>depth = Some 1, relations_paths = Some (all_related_paths blog_serializer)\<rparr>"
    by (simp add: paths original)
  from t [of "[(''depth'', ''2'')]"]
  have b: "get_serializer blog_serializer (Some [(''depth'', ''2'')])
     = Inr \<lparr>depth = Some 2, relations_paths = Some (all_related_paths blog_serializer)\<rparr>"
    by (simp add: paths py_int_examples)
  note t3 = t [of "[(''depth'', [CHR 0xA0] @ py_str (- 12) @ '' '')]",
               THEN conjunct2, THEN conjunct2, THEN conjunct1, rule_format,
               of "[CHR 0xA0]" "- 12" "'' ''"]
  have c: "get_serializer blog_serializer (Some [(''depth'', CHR 0xA0 # ''-12 '')])
     = Inr \<lparr>depth = Some (- 12), relations_paths = Some (all_related_paths blog_serializer)\<rparr>"
    using t3 nat_str_example spaces by (simp add: py_str_example paths)
  from t [of "[(''depth'', ''abc'')]"]
  have d: "get_serializer blog_serializer (Some [(''depth'', ''abc'')]) = Inl ValueError"
    "get_queryset {} blog_serializer [(''depth'', ''abc'')] = Inl ValueError"
    by (simp_all add: py_int_examples)
  from t [of "[(''depth'', '''')]"]
  have e: "get_serializer blog_serializer (Some [(''depth'', '''')]) = Inl ValueError"
    by (simp add: py_int_examples)
  from t [of "[(''depth'', long_digits)]"] long_digits
  have f: "get_serializer blog_serializer (Some [(''depth'', long_digits)]) = Inl ValueError"
    "get_queryset {} blog_serializer [(''depth'', long_digits)] = Inl ValueError"
    by simp_all
  from a b c d e f q show ?thesis by simp
qed

section \<open>Atomicity of the nested write\<close>

lemma upsert_error_names_invalid:
  "upsert validate policy raise_on_invalid path injected g st = Inl e \<Longrightarrow>
     (error_path e, error_fields e) \<in> set (invalid_nodes validate path g)"
  "upsert_children validate policy raise_on_invalid path phase parent children st = Inl e \<Longrightarrow>
     (error_path e, error_fields e) \<in> set (invalid_children validate path children)"
proof (induction validate policy raise_on_invalid path injected g st
         and validate policy raise_on_invalid path phase parent children st
       arbitrary: e and e rule: upsert_upsert_children.induct)
  case (1 validate policy raise_on_invalid path injected t pk scalars children st)
  show ?case
  proof (cases "validate t scalars \<noteq> [] \<and> raise_on_invalid")
    case True
    with "1.prems" show ?thesis by auto
  next
    case False
    show ?thesis
    proof (cases "upsert_children validate policy raise_on_invalid path ToOne None children st")
      case (Inl e1)
      with False "1.prems" have "e1 = e" by (auto split: sum.splits)
      with "1.IH"(1) [OF False] Inl show ?thesis by simp
    next
      case (Inr b)
      obtain ones st1 where b: "b = (ones, st1)" by (cases b)
      obtain i st2 where p: "persist t pk
            (if validate t scalars \<noteq> [] then policy t scalars else scalars)
            (injected @ map (\<lambda>(n, p). (n, entity_pk p)) ones) st1 = (i, st2)"
        by (cases "persist t pk
            (if validate t scalars \<noteq> [] then policy t scalars else scalars)
            (injected @ map (\<lambda>(n, p). (n, entity_pk p)) ones) st1")
      from False "1.prems" Inr b p
      have "upsert_children validate policy raise_on_invalid path ToMany (Some i) children st2 = Inl e"
        by (auto split: sum.splits)
      with "1.IH"(2) [OF False Inr b [symmetric] p [symmetric]]
      show ?thesis by simp
    qed
  qed
next
  case (2 validate policy raise_on_invalid path phase parent st)
  then show ?case by simp
next
  case (3 validate policy raise_on_invalid path phase parent n kind child rest st)
  show ?case
  proof (cases "kind \<noteq> phase")
    case True
    with "3.prems" "3.IH"(1) show ?thesis by simp
  next
    case False
    show ?thesis
    proof (cases "upsert validate policy raise_on_invalid (path @ [n])
                    (case parent of None \<Rightarrow> [] | Some i \<Rightarrow> [(n, i)]) child st")
      case (Inl e1)
      with False "3.prems" have "e1 = e" by (auto split: sum.splits)
      with "3.IH"(2) [OF False] Inl show ?thesis by simp
    next
      case (Inr b)
      obtain p st1 where b: "b = (p, st1)" by (cases b)
      from False "3.prems" Inr b
      have "upsert_children validate policy raise_on_invalid path phase parent rest st1 = Inl e"
        by (auto split: sum.splits)
      with "3.IH"(3) [OF False Inr b [symmetric]] show ?thesis by simp
    qed
  qed
qed

lemma upsert_success_all_valid:
  "raise_on_invalid \<Longrightarrow> upsert validate policy raise_on_invalid path injected g st = Inr r \<Longrightarrow>
     invalid_nodes validate path g = []"
  "raise_on_invalid \<Longrightarrow>
   upsert_children validate policy raise_on_invalid path phase parent children st = Inr rs \<Longrightarrow>
     (n, phase, child) \<in> set children \<Longrightarrow> invalid_nodes validate (path @ [n]) child = []"
proof (induction validate policy raise_on_invalid path injected g st
         and validate policy raise_on_invalid path phase parent children st
       arbitrary: r and rs n child rule: upsert_upsert_children.induct)
  case (1 validate policy raise_on_invalid path injected t pk scalars children st)
  from "1.prems" have valid: "validate t scalars = []" by (auto split: if_splits)
  then have go: "\<not> (validate t scalars \<noteq> [] \<and> raise_on_invalid)" by simp
  from "1.prems" go obtain ones st1
    where ones: "upsert_children validate policy raise_on_invalid path ToOne None children st
                   = Inr (ones, st1)"
    by (auto split: sum.splits)
  obtain i st2 where p: "persist t pk
            (if validate t scalars \<noteq> [] then policy t scalars else scalars)
            (injected @ map (\<lambda>(n, p). (n, entity_pk p)) ones) st1 = (i, st2)"
    by (cases "persist t pk
            (if validate t scalars \<noteq> [] then policy t scalars else scalars)
            (injected @ map (\<lambda>(n, p). (n, entity_pk p)) ones) st1")
  from "1.prems" go ones p obtain many st3
    where many: "upsert_children validate policy raise_on_invalid path ToMany (Some i) children st2
                   = Inr (many, st3)"
    by (auto split: sum.splits)
  have one_ok: "\<And>n child. (n, ToOne, child) \<in> set children \<Longrightarrow>
                  invalid_nodes validate (path @ [n]) child = []"
    by (rule "1.IH"(1) [OF go "1.prems"(1) ones])
  have many_ok: "\<And>n child. (n, ToMany, child) \<in> set children \<Longrightarrow>
                  invalid_nodes validate (path @ [n]) child = []"
    by (rule "1.IH"(2) [OF go ones refl p [symmetric] "1.prems"(1) many])
  have "invalid_children validate path cs = []" if "set cs \<subseteq> set children" for cs
    using that
  proof (induction cs)
    case Nil
    show ?case by simp
  next
    case (Cons c cs)
    obtain n kind child where c: "c = (n, kind, child)" by (cases c)
    from Cons.prems c have mem: "(n, kind, child) \<in> set children" by simp
    have "invalid_nodes validate (path @ [n]) child = []"
      using mem one_ok many_ok by (cases kind) auto
    with Cons c show ?case by simp
  qed
  then have "invalid_children validate path children = []" by simp
  with valid show ?case by simp
next
  case (2 validate policy raise_on_invalid path phase parent st)
  then show ?case by simp
next
  case (3 validate policy raise_on_invalid path phase parent m kind child' rest st)
  show ?case
  proof (cases "kind \<noteq> phase")
    case True
    with "3.prems" have "upsert_children validate policy raise_on_invalid path phase parent rest st = Inr rs"
      and "(n, phase, child) \<in> set rest" by auto
    with "3.IH"(1) [OF True "3.prems"(1)] show ?thesis by blast
  next
    case False
    from False "3.prems" obtain p st1
      where head: "upsert validate policy raise_on_invalid (path @ [m])
                    (case parent of None \<Rightarrow> [] | Some i \<Rightarrow> [(m, i)]) child' st = Inr (p, st1)"
      by (auto split: sum.splits)
    from False "3.prems" head obtain ps st2
      where tail: "upsert_children validate policy raise_on_invalid path phase parent rest st1
                     = Inr (ps, st2)"
      by (auto split: sum.splits)
    from "3.prems"(3) consider "(n, child) = (m, child')" | "(n, phase, child) \<in> set rest"
      by auto
    then show ?thesis
    proof cases
      case 1
      with "3.IH"(2) [OF False "3.prems"(1) head] show ?thesis by simp
    next
      case 2
      with "3.IH"(3) [OF False head refl "3.prems"(1) tail] show ?thesis by blast
    qed
  qed
qed

lemma book_payload_invalid:
  "invalid_nodes non_empty [] book_payload = [([''reviews''], [''rating''])]"
  "with_root_type Book book_payload = book_payload"
  by (simp_all add: book_payload_def non_empty_def with_root_type_def)

lemma good_payload_written:
  "deep_create blog_serializer [] non_empty keep_valid Book good_payload empty_storage
     = (Inr (Response
          (PersistedEntity 2 Book [(''title'', ''Emma'')]
             [(''author'', PersistedEntity 1 Author [(''name'', ''Jane'')] []),
              (''reviews'', PersistedEntity 3 Review [(''rating'', ''5'')] [])]) 201),
        \<lparr>rows = [(1, EntityRow Author [(''name'', ''Jane'')] []),
                 (2, EntityRow Book [(''title'', ''Emma'')] [(''author'', 1), (''reviews'', 3)]),
                 (3, EntityRow Review [(''rating'', ''5'')] [(''reviews'', 2)])],
          next_pk = 4\<rparr>)"
  by (simp add: deep_create_def deep_update_or_create_def get_serializer_def request_depth_def
        good_payload_def empty_storage_def non_empty_def persist_def associate_def
        with_root_type_def)

text \<open>
  C9.  Let the payload of \<^verbatim>\<open>deep_create\<close> hold at least one node that fails validation.  The
  action writes with \<^verbatim>\<open>raise_exception=True\<close>, so the write is aborted and storage is what it was
  before the action: no row of the root or of a descendant is kept, also when the failing node is
  reached after rows were written inside the transaction.  When the serializer could be built
  from the request, the error that surfaces is a validation error that carries the path and the
  failing fields of an invalid node of the payload.
\<close>

theorem deep_create_atomic:
  assumes "invalid_nodes validate [] (with_root_type root_type payload) \<noteq> []"
  shows "snd (deep_create serializer params validate policy root_type payload st) = st
     \<and> (\<forall>call. get_serializer serializer (Some params) = Inr call \<longrightarrow>
          (\<exists>e. fst (deep_create serializer params validate policy root_type payload st) = Inl (WriteError e)
               \<and> (error_path e, error_fields e) \<in> set (invalid_nodes validate [] (with_root_type root_type payload))))"
proof -
  obtain e where e: "upsert validate policy True [] [] (with_root_type root_type payload) st = Inl e"
  proof (cases "upsert validate policy True [] [] (with_root_type root_type payload) st")
    case (Inl e)
    then show ?thesis by (rule that)
  next
    case (Inr r)
    from upsert_success_all_valid(1) [OF TrueI Inr] assms show ?thesis by simp
  qed
  have named: "(error_path e, error_fields e) \<in> set (invalid_nodes validate [] (with_root_type root_type payload))"
    using e by (rule upsert_error_names_invalid(1))
  have aborted: "deep_update_or_create validate policy root_type payload True st = (Inl e, st)"
    by (simp add: deep_update_or_create_def e)
  have unchanged: "snd (deep_create serializer params validate policy root_type payload st) = st"
    by (simp add: deep_create_def aborted split: sum.splits)
  have "fst (deep_create serializer params validate policy root_type payload st) = Inl (WriteError e)"
    if "get_serializer serializer (Some params) = Inr call" for call
    using that by (simp add: deep_create_def aborted)
  with named unchanged show ?thesis by blast
qed

theorem deep_create_atomic_witness:
  "invalid_nodes non_empty [] book_payload = [([''reviews''], [''rating''])]
   \<and> deep_create blog_serializer [] non_empty keep_valid Book book_payload empty_storage
       = (Inl (WriteError (ValidationError [''reviews''] [''rating''])), empty_storage)
   \<and> rows (snd (deep_create blog_serializer [] non_empty keep_valid Book good_payload empty_storage))
       = [(1, EntityRow Author [(''name'', ''Jane'')] []),
          (2, EntityRow Book [(''title'', ''Emma'')] [(''author'', 1), (''reviews'', 3)]),
          (3, EntityRow Review [(''rating'', ''5'')] [(''reviews'', 2)])]"
proof -
  have s: "get_serializer blog_serializer (Some [])
             = Inr \<lparr>depth = Some 1, relations_paths = Some (request_relations_paths blog_serializer [])\<rparr>"
    by (simp add: get_serializer_def request_depth_def blog_serializer_def)
  from deep_create_atomic [of non_empty Book book_payload blog_serializer "[]" keep_valid empty_storage]
  obtain e where
      unchanged: "snd (deep_create blog_serializer [] non_empty keep_valid Book book_payload empty_storage)
                    = empty_storage"
    and res: "fst (deep_create blog_serializer [] non_empty keep_valid Book book_payload empty_storage)
                = Inl (WriteError e)"
    and named: "(error_path e, error_fields e) \<in> set (invalid_nodes non_empty [] book_payload)"
    by (auto simp: book_payload_invalid s)
  from named have "e = ValidationError [''reviews''] [''rating'']"
    by (cases e) (simp add: book_payload_invalid)
  with unchanged res
  have "deep_create blog_serializer [] non_empty keep_valid Book book_payload empty_storage
       = (Inl (WriteError (ValidationError [''reviews''] [''rating''])), empty_storage)"
    by (simp add: prod_eq_iff)
  then show ?thesis by (simp add: book_payload_invalid good_payload_written)
qed

section \<open>Requests without exclusions\<close>

text \<open>
  C10.  When the \<^verbatim>\<open>exclude\<close> parameter is absent or empty, \<^verbatim>\<open>"".split(",")\<close> yields the single
  entry \<^verbatim>\<open>""\<close>, which the test \<^verbatim>\<open>if exclude\<close> ignores: no path is excluded.  The relation paths
  handed to the serializer by \<^verbatim>\<open>get_serializer\<close> and to \<^verbatim>\<open>optimize_queryset\<close> by
  \<^verbatim>\<open>get_queryset\<close> are all of \<^verbatim>\<open>_all_related_paths\<close>.
\<close>

theorem no_exclude_keeps_all_paths:
  assumes "map_of params ''exclude'' = None \<or> map_of params ''exclude'' = Some ''''"
  shows "request_relations_paths serializer params = all_related_paths serializer
     \<and> (\<forall>call. get_serializer serializer (Some params) = Inr call \<longrightarrow>
          relations_paths call = Some (all_related_paths serializer))
     \<and> (\<forall>queryset. get_queryset possible_fields serializer params = Inr queryset \<longrightarrow>
          map fst (optimized queryset) = [all_related_paths serializer])"
proof -
  have all: "request_relations_paths serializer params = all_related_paths serializer"
    by (simp add: request_relations_paths_def request_excludes_absent [OF assms])
  show ?thesis
    using all by (auto dest: get_serializer_paths get_queryset_shape)
qed

theorem no_exclude_keeps_all_paths_witness:
  "map_of [(''depth'', ''3'')] ''exclude'' = None
   \<and> get_serializer blog_serializer (Some [(''depth'', ''3'')])
        = Inr \<lparr>depth = Some 3, relations_paths = Some (all_related_paths blog_serializer)\<rparr>
   \<and> map_of [(''exclude'', ''''), (''depth'', ''3'')] ''exclude'' = Some ''''
   \<and> get_queryset {} blog_serializer [(''exclude'', ''''), (''depth'', ''3'')]
        = Inr [Optimize (all_related_paths blog_serializer) 3]"
proof -
  have d: "request_depth blog_serializer [(''depth'', ''3'')] = Inr 3"
    "request_depth blog_serializer [(''exclude'', ''''), (''depth'', ''3'')] = Inr 3"
    by (simp_all add: request_depth_def py_int_def strip_def is_space_def unsigned_int_def
          digit_of_def max_str_digits_def)
  from no_exclude_keeps_all_paths [of "[(''depth'', ''3'')]" blog_serializer "{}"]
    no_exclude_keeps_all_paths [of "[(''exclude'', ''''), (''depth'', ''3'')]" blog_serializer "{}"]
  show ?thesis
    by (simp add: get_serializer_def get_queryset_def d params_get_def)
qed

end
